theory Spec2Isabelle
  imports Main "HOL-Library.Multiset"
begin

section \<open>Texts and the platform's case conversions\<close>

text \<open>
  The module under verification is the PII masking library (\<open>lib/pii-masking\<close>).
  A JavaScript string is the list of its UTF-16 code units, each a number from 0 to
  65535 (an \<open>int\<close>; the numbers outside that range stand for no code unit); its
  \<open>length\<close> is the length of that list. \<open>lit\<close> gives the code units of a literal
  written in ASCII.
\<close>

type_synonym str = "int list"

definition lit :: "string \<Rightarrow> str" where
  "lit s = map of_char s"

text \<open>
  \<open>String.prototype.toLowerCase\<close> and \<open>toUpperCase\<close> belong to the platform. They
  follow the case mappings of Unicode, which are not the same for every letter in both
  directions and do not keep the length of a text (the upper-case form of \<open>\<ss>\<close> is
  \<open>SS\<close>), so they are a parameter of the model, as \<open>Date\<close> is below.
\<close>

record case_api =
  toLowerCase :: "str \<Rightarrow> str"
  toUpperCase :: "str \<Rightarrow> str"

text \<open>
  Where a theorem needs something of the platform, it is this: on a text of ASCII code
  units the conversions change the letters \<open>a\<close> to \<open>z\<close> and \<open>A\<close> to \<open>Z\<close>, one
  by one, and nothing else.
\<close>

definition upper_code :: "int \<Rightarrow> int" where
  "upper_code n = (if 97 \<le> n \<and> n \<le> 122 then n - 32 else n)"

definition lower_code :: "int \<Rightarrow> int" where
  "lower_code n = (if 65 \<le> n \<and> n \<le> 90 then n + 32 else n)"

definition ascii :: "str \<Rightarrow> bool" where
  "ascii s = list_all (\<lambda>c. c < 128) s"

definition ascii_faithful :: "case_api \<Rightarrow> bool" where
  "ascii_faithful P \<longleftrightarrow>
     (\<forall>s. ascii s \<longrightarrow> toLowerCase P s = map lower_code s \<and> toUpperCase P s = map upper_code s)"

text \<open>\<open>s.split(sep)[0]\<close>: the part of \<open>s\<close> before the first separator (all of \<open>s\<close>
  when there is none).\<close>

definition split_first :: "int \<Rightarrow> str \<Rightarrow> str" where
  "split_first sep s = takeWhile (\<lambda>c. c \<noteq> sep) s"

text \<open>\<open>hay.includes(needle)\<close>: exact substring test.\<close>

fun starts_with :: "str \<Rightarrow> str \<Rightarrow> bool" where
  "starts_with s [] = True"
| "starts_with [] (p # ps) = False"
| "starts_with (c # cs) (p # ps) = (c = p \<and> starts_with cs ps)"

fun js_includes :: "str \<Rightarrow> str \<Rightarrow> bool" where
  "js_includes [] needle = starts_with [] needle"
| "js_includes (c # cs) needle = (starts_with (c # cs) needle \<or> js_includes cs needle)"

section \<open>Objects used as insertion-ordered dictionaries\<close>

text \<open>
  A plain object is the list of its own properties in the order \<open>Object.keys\<close> and
  \<open>Object.entries\<close> enumerate them: array-index keys first, in ascending numeric order,
  then all other keys in the order of their creation. Assigning to an existing key keeps
  its position.
\<close>

type_synonym 'v js_object = "(str \<times> 'v) list"

definition is_digit :: "int \<Rightarrow> bool" where
  "is_digit c = (48 \<le> c \<and> c \<le> 57)"

definition digits_value :: "str \<Rightarrow> int" where
  "digits_value s = foldl (\<lambda>n c. 10 * n + (c - 48)) 0 s"

definition is_array_index :: "str \<Rightarrow> bool" where
  "is_array_index s =
     (s \<noteq> [] \<and> list_all is_digit s \<and> (s = [48] \<or> hd s \<noteq> 48)
      \<and> digits_value s < 4294967295)"

definition goes_before :: "str \<Rightarrow> str \<Rightarrow> bool" where
  "goes_before k k' =
     (is_array_index k \<and> (\<not> is_array_index k' \<or> digits_value k < digits_value k'))"

fun obj_insert :: "str \<Rightarrow> 'v \<Rightarrow> 'v js_object \<Rightarrow> 'v js_object" where
  "obj_insert k v [] = [(k, v)]"
| "obj_insert k v ((k', v') # es) =
     (if goes_before k k' then (k, v) # (k', v') # es else (k', v') # obj_insert k v es)"

definition obj_update :: "str \<Rightarrow> 'v \<Rightarrow> 'v js_object \<Rightarrow> 'v js_object" where
  "obj_update k v es = map (\<lambda>(k', v'). if k' = k then (k', v) else (k', v')) es"

text \<open>
  The objects of the module inherit from \<open>Object.prototype\<close>. Its property names are
  found when a name that is no own property is read; one of them, \<open>__proto__\<close>, is an
  accessor, so that assigning to it creates no property.
\<close>

definition proto_key :: str where
  "proto_key = lit ''__proto__''"

definition prototype_names :: "str list" where
  "prototype_names = map lit [''constructor'', ''__defineGetter__'', ''__defineSetter__'',
     ''hasOwnProperty'', ''__lookupGetter__'', ''__lookupSetter__'', ''isPrototypeOf'',
     ''propertyIsEnumerable'', ''toString'', ''valueOf'', ''__proto__'', ''toLocaleString'']"

text \<open>
  \<open>obj[k] = v\<close>, for an object that the module created as \<open>{}\<close> and has only
  assigned to (every object it writes is one). Such an object has no own property
  \<open>__proto__\<close>, and the assignment to that name goes to the accessor: no property is
  created. (When \<open>v\<close> is an object the accessor makes it the prototype, which the list
  of own properties does not show.)
\<close>

definition obj_set :: "str \<Rightarrow> 'v \<Rightarrow> 'v js_object \<Rightarrow> 'v js_object" where
  "obj_set k v es =
     (if k = proto_key then es
      else if k \<in> set (map fst es) then obj_update k v es else obj_insert k v es)"

text \<open>The own property \<open>k\<close> of an object, \<open>None\<close> when it has none.\<close>

definition obj_get :: "'v js_object \<Rightarrow> str \<Rightarrow> 'v option" where
  "obj_get es k = map_of es k"

definition obj_keys :: "'v js_object \<Rightarrow> str list" where
  "obj_keys es = map fst es"

section \<open>Literal patterns and global replacement\<close>

text \<open>
  \<open>escapeRegExp\<close> puts a backslash before every character of the class
  \<open>[.*+?^${}()|[\]\\]\<close>.
\<close>

definition backslash :: int where
  "backslash = 92"

definition regexp_special :: "int \<Rightarrow> bool" where
  "regexp_special c = (c \<in> set (lit ''.*+?^${}()|[]'') \<or> c = backslash)"

definition escapeRegExp :: "str \<Rightarrow> str" where
  "escapeRegExp s = concat (map (\<lambda>c. if regexp_special c then [backslash, c] else [c]) s)"

text \<open>
  \<open>new RegExp(source, flags)\<close>. The syntax characters of the pattern grammar are
  \<open>^ $ \ . * + ? ( ) [ ] { } |\<close>. A source is read as a literal pattern, the sequence of
  code units to be matched, when each of its code units is either no syntax character and
  stands for itself, or a backslash followed by a syntax character, which stands for that
  character. Any other source is outside what the model reads, and the result is
  \<open>None\<close>: the constructor throws for it, or the pattern has operators, or it relies
  on the leniency of the grammar towards unescaped brackets.
\<close>

definition syntax_character :: "int \<Rightarrow> bool" where
  "syntax_character c = (c \<in> {94, 36, 92, 46, 42, 43, 63, 40, 41, 91, 93, 123, 125, 124})"

fun regexp_chars :: "str \<Rightarrow> str option" where
  "regexp_chars [] = Some []"
| "regexp_chars [c] = (if syntax_character c then None else Some [c])"
| "regexp_chars (c # d # r) =
     (if c = backslash then
        (if syntax_character d then map_option ((#) d) (regexp_chars r) else None)
      else if syntax_character c then None
      else map_option ((#) c) (regexp_chars (d # r)))"

text \<open>
  Matching a literal pattern at the start of a text, code unit by code unit (the patterns
  have no flag \<open>u\<close>). With the flag \<open>i\<close> both sides are canonicalised as the
  language defines it: a code unit is replaced by its upper-case form when that form is a
  single code unit, except that a code unit outside ASCII is never replaced by one inside.
\<close>

definition canonicalize :: "case_api \<Rightarrow> bool \<Rightarrow> int \<Rightarrow> int" where
  "canonicalize P ignoreCase ch =
     (if ignoreCase then
        (case toUpperCase P [ch] of
           [] \<Rightarrow> ch
         | cu # others \<Rightarrow> (if others \<noteq> [] then ch else if 128 \<le> ch \<and> cu < 128 then ch else cu))
      else ch)"

fun match_here :: "case_api \<Rightarrow> bool \<Rightarrow> str \<Rightarrow> str \<Rightarrow> bool" where
  "match_here P ic [] s = True"
| "match_here P ic (p # ps) [] = False"
| "match_here P ic (p # ps) (c # cs) =
     (canonicalize P ic p = canonicalize P ic c \<and> match_here P ic ps cs)"

text \<open>
  The replacement text of \<open>String.prototype.replace\<close> is a template: \<open>$$\<close> stands for
  a dollar sign, \<open>$&\<close> for the matched text, \<open>$`\<close> for the text before the match and
  \<open>$'\<close> for the text after it. The patterns here have no capture groups, so every other
  use of \<open>$\<close> stands for itself.
\<close>

fun expand_template :: "str \<Rightarrow> str \<Rightarrow> str \<Rightarrow> str \<Rightarrow> str" where
  "expand_template [] preceding matched following = []"
| "expand_template [c] preceding matched following = [c]"
| "expand_template (c # d # r) preceding matched following =
     (if c = 36 \<and> d = 36 then 36 # expand_template r preceding matched following
      else if c = 36 \<and> d = 38 then matched @ expand_template r preceding matched following
      else if c = 36 \<and> d = 96 then preceding @ expand_template r preceding matched following
      else if c = 36 \<and> d = 39 then following @ expand_template r preceding matched following
      else c # expand_template (d # r) preceding matched following)"

text \<open>
  \<open>text.replace(regex, template)\<close> for the literal pattern \<open>pat\<close> with the flag
  \<open>g\<close>, and the flag \<open>i\<close> when \<open>ic\<close> holds: scan from the left, replace each
  match, continue after it. \<open>seen\<close> is the part of the text already scanned. An empty
  pattern matches before every code unit and at the end; the scan then moves on by one
  code unit.
\<close>

function replace_from :: "case_api \<Rightarrow> bool \<Rightarrow> str \<Rightarrow> str \<Rightarrow> str \<Rightarrow> str \<Rightarrow> str" where
  "replace_from P ic pat template seen rest =
     (if match_here P ic pat rest then
        (let matched = take (length pat) rest; following = drop (length pat) rest;
             out = expand_template template seen matched following
         in if pat = [] then
              (case rest of [] \<Rightarrow> out
               | c # cs \<Rightarrow> out @ c # replace_from P ic pat template (seen @ [c]) cs)
            else out @ replace_from P ic pat template (seen @ matched) following)
      else
        (case rest of [] \<Rightarrow> []
         | c # cs \<Rightarrow> c # replace_from P ic pat template (seen @ [c]) cs))"
  by pat_completeness auto
termination
proof (relation "measure (\<lambda>(P, ic, pat, template, seen, rest). length rest)")
  show "wf (measure (\<lambda>(P, ic, pat, template, seen, rest). length rest))" by simp
next
  fix P :: case_api and ic :: bool and pat template seen rest :: str and x xa xb
  assume "match_here P ic pat rest" and "pat \<noteq> []" and "xa = drop (length pat) rest"
  then show "((P, ic, pat, template, seen @ x, xa), P, ic, pat, template, seen, rest)
      \<in> measure (\<lambda>(P, ic, pat, template, seen, rest). length rest)"
    by (cases pat; cases rest) auto
qed auto

definition replace_all :: "case_api \<Rightarrow> bool \<Rightarrow> str \<Rightarrow> str \<Rightarrow> str \<Rightarrow> str" where
  "replace_all P ic pat template text = replace_from P ic pat template [] text"

declare replace_from.simps [simp del]

text \<open>\<open>text.replace(new RegExp(source, flags), template)\<close>\<close>

definition regexp_replace :: "case_api \<Rightarrow> bool \<Rightarrow> str \<Rightarrow> str \<Rightarrow> str \<Rightarrow> str option" where
  "regexp_replace P ic source template text =
     map_option (\<lambda>pat. replace_all P ic pat template text) (regexp_chars source)"

section \<open>The subject record and the placeholder tokens\<close>

record StudentInfo =
  name :: str
  dateOfBirth :: str
  studentId :: str
  school :: str
  grade :: str
  parentName :: str
  parentEmail :: "str option"
  address :: "str option"

type_synonym PIIMappings = "str js_object"

definition STUDENT_NAME :: str where "STUDENT_NAME = lit ''[STUDENT_NAME]''"
definition STUDENT_FIRST :: str where "STUDENT_FIRST = lit ''[STUDENT_FIRST]''"
definition DOB :: str where "DOB = lit ''[DATE_OF_BIRTH]''"
definition STUDENT_ID :: str where "STUDENT_ID = lit ''[STUDENT_ID]''"
definition SCHOOL :: str where "SCHOOL = lit ''[SCHOOL_NAME]''"
definition GRADE :: str where "GRADE = lit ''[GRADE_LEVEL]''"
definition PARENT_NAME :: str where "PARENT_NAME = lit ''[PARENT_NAME]''"
definition ADDRESS :: str where "ADDRESS = lit ''[ADDRESS]''"
definition HE_SHE :: str where "HE_SHE = lit ''[HE/SHE]''"
definition HIM_HER :: str where "HIM_HER = lit ''[HIM/HER]''"
definition HIS_HER :: str where "HIS_HER = lit ''[HIS/HER]''"

definition PLACEHOLDERS :: "str list" where
  "PLACEHOLDERS = [STUDENT_NAME, STUDENT_FIRST, DOB, STUDENT_ID, SCHOOL, GRADE, PARENT_NAME,
     ADDRESS, HE_SHE, HIM_HER, HIS_HER]"

section \<open>createPIIMappings\<close>

text \<open>
  The platform's \<open>Date\<close> is a parameter of the model: \<open>date s\<close> is \<open>None\<close> when
  \<open>new Date(s).getTime()\<close> is \<open>NaN\<close>, and otherwise the pair of
  \<open>toLocaleDateString()\<close> and \<open>toISOString()\<close> of that date.
\<close>

type_synonym date_api = "str \<Rightarrow> (str \<times> str) option"

definition name_block :: "case_api \<Rightarrow> StudentInfo \<Rightarrow> PIIMappings \<Rightarrow> PIIMappings" where
  "name_block P si m =
     (if name si \<noteq> [] then
        (let m1 = obj_set (name si) STUDENT_NAME m;
             firstName = split_first 32 (name si);
             m2 = (if firstName \<noteq> [] \<and> firstName \<noteq> name si
                   then obj_set firstName STUDENT_FIRST m1 else m1);
             m3 = obj_set (toLowerCase P (name si)) STUDENT_NAME m2;
             m4 = obj_set (toUpperCase P (name si)) STUDENT_NAME m3;
             m5 = obj_set (toLowerCase P firstName) STUDENT_FIRST m4
         in obj_set (toUpperCase P firstName) STUDENT_FIRST m5)
      else m)"

definition dob_block :: "date_api \<Rightarrow> StudentInfo \<Rightarrow> PIIMappings \<Rightarrow> PIIMappings" where
  "dob_block date si m =
     (if dateOfBirth si \<noteq> [] then
        (let m1 = obj_set (dateOfBirth si) DOB m
         in case date (dateOfBirth si) of
              None \<Rightarrow> m1
            | Some (localeDate, isoString) \<Rightarrow>
                obj_set (split_first 84 isoString) DOB (obj_set localeDate DOB m1))
      else m)"

definition id_block :: "StudentInfo \<Rightarrow> PIIMappings \<Rightarrow> PIIMappings" where
  "id_block si m = (if studentId si \<noteq> [] then obj_set (studentId si) STUDENT_ID m else m)"

definition school_block :: "case_api \<Rightarrow> StudentInfo \<Rightarrow> PIIMappings \<Rightarrow> PIIMappings" where
  "school_block P si m =
     (if school si \<noteq> [] then
        obj_set (toUpperCase P (school si)) SCHOOL
          (obj_set (toLowerCase P (school si)) SCHOOL (obj_set (school si) SCHOOL m))
      else m)"

definition grade_block :: "StudentInfo \<Rightarrow> PIIMappings \<Rightarrow> PIIMappings" where
  "grade_block si m = (if grade si \<noteq> [] then obj_set (grade si) GRADE m else m)"

definition parent_block :: "case_api \<Rightarrow> StudentInfo \<Rightarrow> PIIMappings \<Rightarrow> PIIMappings" where
  "parent_block P si m =
     (if parentName si \<noteq> [] then
        obj_set (toUpperCase P (parentName si)) PARENT_NAME
          (obj_set (toLowerCase P (parentName si)) PARENT_NAME
            (obj_set (parentName si) PARENT_NAME m))
      else m)"

definition address_block :: "StudentInfo \<Rightarrow> PIIMappings \<Rightarrow> PIIMappings" where
  "address_block si m =
     (case address si of
        None \<Rightarrow> m
      | Some a \<Rightarrow> (if a \<noteq> [] then obj_set a ADDRESS m else m))"

definition createPIIMappings :: "case_api \<Rightarrow> date_api \<Rightarrow> StudentInfo \<Rightarrow> PIIMappings" where
  "createPIIMappings P date si =
     address_block si (parent_block P si (grade_block si (school_block P si
       (id_block si (dob_block date si (name_block P si []))))))"

section \<open>maskPII\<close>

text \<open>\<open>Object.keys(mappings).sort((a, b) => b.length - a.length)\<close>: a stable sort by
  descending length.\<close>

definition sortedKeys :: "PIIMappings \<Rightarrow> str list" where
  "sortedKeys m = sort_key (\<lambda>k. - int (length k)) (obj_keys m)"

text \<open>The value read for a key of the table (the keys come from \<open>Object.keys\<close>, so
  each is an own property); \<open>undefined\<close> as a replacement would be the text
  \<open>undefined\<close>.\<close>

definition placeholder_of :: "PIIMappings \<Rightarrow> str \<Rightarrow> str" where
  "placeholder_of m realValue =
     (case obj_get m realValue of Some p \<Rightarrow> p | None \<Rightarrow> lit ''undefined'')"

fun mask_loop :: "case_api \<Rightarrow> PIIMappings \<Rightarrow> str list \<Rightarrow> str \<Rightarrow> str option" where
  "mask_loop P m [] maskedText = Some maskedText"
| "mask_loop P m (realValue # ks) maskedText =
     (case regexp_replace P True (escapeRegExp realValue) (placeholder_of m realValue) maskedText of
        None \<Rightarrow> None
      | Some replaced \<Rightarrow> mask_loop P m ks replaced)"

definition maskPII :: "case_api \<Rightarrow> str \<Rightarrow> PIIMappings \<Rightarrow> str option" where
  "maskPII P text m = mask_loop P m (sortedKeys m) text"

section \<open>unmaskPII\<close>

text \<open>
  \<open>!reverseMappings[placeholder]\<close>: true for an own entry that is the empty text, and
  for a name that is neither an own property nor a property of \<open>Object.prototype\<close>
  (those are functions or objects, which are truthy).
\<close>

definition falsy_entry :: "str js_object \<Rightarrow> str \<Rightarrow> bool" where
  "falsy_entry rm placeholder =
     (case obj_get rm placeholder of
        Some s \<Rightarrow> s = []
      | None \<Rightarrow> placeholder \<notin> set prototype_names)"

fun reverse_loop :: "(str \<times> str) list \<Rightarrow> str js_object \<Rightarrow> str js_object" where
  "reverse_loop [] rm = rm"
| "reverse_loop ((realValue, placeholder) # es) rm =
     reverse_loop es
       (if falsy_entry rm placeholder then obj_set placeholder realValue rm else rm)"

definition reverseMappings :: "PIIMappings \<Rightarrow> str js_object" where
  "reverseMappings m = reverse_loop m []"

fun unmask_loop :: "case_api \<Rightarrow> (str \<times> str) list \<Rightarrow> str \<Rightarrow> str option" where
  "unmask_loop P [] unmaskedText = Some unmaskedText"
| "unmask_loop P ((placeholder, realValue) # es) unmaskedText =
     (case regexp_replace P False (escapeRegExp placeholder) realValue unmaskedText of
        None \<Rightarrow> None
      | Some replaced \<Rightarrow> unmask_loop P es replaced)"

definition unmaskPII :: "case_api \<Rightarrow> str \<Rightarrow> PIIMappings \<Rightarrow> str option" where
  "unmaskPII P text m = unmask_loop P (reverseMappings m) text"

section \<open>validateNoExposedPII\<close>

record validation =
  isClean :: bool
  exposedValues :: "str list"

fun exposed_loop :: "case_api \<Rightarrow> str \<Rightarrow> str list \<Rightarrow> str list \<Rightarrow> str list" where
  "exposed_loop P textLower [] exposed = exposed"
| "exposed_loop P textLower (realValue # ks) exposed =
     exposed_loop P textLower ks
       (if length realValue > 2 \<and> js_includes textLower (toLowerCase P realValue)
        then exposed @ [realValue] else exposed)"

definition validateNoExposedPII :: "case_api \<Rightarrow> str \<Rightarrow> PIIMappings \<Rightarrow> validation" where
  "validateNoExposedPII P text m =
     (let exposed = exposed_loop P (toLowerCase P text) (obj_keys m) []
      in \<lparr>isClean = (length exposed = 0), exposedValues = exposed\<rparr>)"

section \<open>maskPIIInObject\<close>

text \<open>
  The values the walker distinguishes: a text, an array, a non-null object (the list of
  its own enumerable properties, as \<open>Object.entries\<close> gives them), and everything
  else. Numbers are opaque to the walker, so their type is a parameter.
\<close>

datatype 'n js_value =
    JString str
  | JArray "'n js_value list"
  | JObject "(str \<times> 'n js_value) list"
  | JNumber 'n
  | JBoolean bool
  | JNull
  | JUndefined

text \<open>The loop \<open>for (const [key, value] of entries) masked[key] = ...\<close>, from the
  empty object.\<close>

definition assign_entries :: "(str \<times> 'v) list \<Rightarrow> 'v js_object" where
  "assign_entries es = foldl (\<lambda>masked (key, v). obj_set key v masked) [] es"

text \<open>The results of the recursive calls, as long as none of them has failed.\<close>

fun all_results :: "'a option list \<Rightarrow> 'a list option" where
  "all_results [] = Some []"
| "all_results (None # rs) = None"
| "all_results (Some x # rs) = map_option ((#) x) (all_results rs)"

definition with_key :: "str \<times> 'a option \<Rightarrow> (str \<times> 'a) option" where
  "with_key e = map_option (Pair (fst e)) (snd e)"

primrec maskPIIInObject :: "case_api \<Rightarrow> 'n js_value \<Rightarrow> PIIMappings \<Rightarrow> 'n js_value option" where
  "maskPIIInObject P (JString s) = (\<lambda>m. map_option JString (maskPII P s m))"
| "maskPIIInObject P (JArray items) =
     (\<lambda>m. map_option JArray (all_results (map (\<lambda>item. maskPIIInObject P item m) items)))"
| "maskPIIInObject P (JObject es) =
     (\<lambda>m. map_option (\<lambda>rs. JObject (assign_entries rs))
        (all_results (map with_key (map (map_prod id (\<lambda>v. maskPIIInObject P v m)) es))))"
| "maskPIIInObject P (JNumber n) = (\<lambda>m. Some (JNumber n))"
| "maskPIIInObject P (JBoolean b) = (\<lambda>m. Some (JBoolean b))"
| "maskPIIInObject P JNull = (\<lambda>m. Some JNull)"
| "maskPIIInObject P JUndefined = (\<lambda>m. Some JUndefined)"

section \<open>Notions used to state the properties\<close>

text \<open>
  The key \<open>k\<close> occurs in a text up to case, as the masker sees it: the pattern of
  \<open>k\<close> with the flag \<open>i\<close> matches somewhere in the text
  (\<open>new RegExp(escapeRegExp(k), 'i').test(text)\<close>). Two texts are equal up to case
  in that sense when their canonical forms are equal.
\<close>

fun occurs_ci :: "case_api \<Rightarrow> str \<Rightarrow> str \<Rightarrow> bool" where
  "occurs_ci P k [] = match_here P True k []"
| "occurs_ci P k (c # t) = (match_here P True k (c # t) \<or> occurs_ci P k t)"

definition ci_equal :: "case_api \<Rightarrow> str \<Rightarrow> str \<Rightarrow> bool" where
  "ci_equal P a b \<longleftrightarrow> map (canonicalize P True) a = map (canonicalize P True) b"

text \<open>A code unit that equals no code unit of \<open>k\<close> up to case.\<close>

definition foreign_to :: "case_api \<Rightarrow> int \<Rightarrow> str \<Rightarrow> bool" where
  "foreign_to P c k \<longleftrightarrow> (\<forall>x \<in> set k. canonicalize P True x \<noteq> canonicalize P True c)"

text \<open>
  The value \<open>k\<close> occurs in a text of ASCII code units up to the case of the ASCII
  letters: some window of the text, of the length of \<open>k\<close>, equals \<open>k\<close> once the
  letters of both are in lower case. This notion does not refer to the platform.
\<close>

fun occurs_up_to_case :: "str \<Rightarrow> str \<Rightarrow> bool" where
  "occurs_up_to_case k [] = (k = [])"
| "occurs_up_to_case k (c # t) =
     (map lower_code (take (length k) (c # t)) = map lower_code k \<or> occurs_up_to_case k t)"

text \<open>The shape of a placeholder token: bracketed text without a dollar sign.\<close>

definition token_like :: "str \<Rightarrow> bool" where
  "token_like p \<longleftrightarrow> 2 \<le> length p \<and> hd p = 91 \<and> last p = 93 \<and> 36 \<notin> set p"

definition bracket_free :: "str \<Rightarrow> bool" where
  "bracket_free k \<longleftrightarrow> 91 \<notin> set k \<and> 93 \<notin> set k"

definition tokens_only :: "PIIMappings \<Rightarrow> bool" where
  "tokens_only m \<longleftrightarrow> (\<forall>p \<in> set (map snd m). token_like p)"


text \<open>A key that cannot be mistaken for a piece of a placeholder of the table: it is not
  empty, has no bracket, and occurs in no placeholder of the table up to case.\<close>

definition maskable :: "case_api \<Rightarrow> PIIMappings \<Rightarrow> str \<Rightarrow> bool" where
  "maskable P m k \<longleftrightarrow>
     k \<noteq> [] \<and> bracket_free k \<and> (\<forall>p \<in> set (map snd m). \<not> occurs_ci P k p)"

text \<open>The text after the keys \<open>ks\<close> have been replaced one after the other.\<close>

definition replaced_keys :: "case_api \<Rightarrow> PIIMappings \<Rightarrow> str list \<Rightarrow> str \<Rightarrow> str" where
  "replaced_keys P m ks text =
     foldl (\<lambda>acc k. replace_all P True k (placeholder_of m k) acc) text ks"

text \<open>What the blocks after the date of birth write, starting from the empty table.\<close>

definition later_fields :: "case_api \<Rightarrow> StudentInfo \<Rightarrow> PIIMappings" where
  "later_fields P si =
     address_block si (parent_block P si (grade_block si (school_block P si (id_block si []))))"

text \<open>The text after the tokens of the entries \<open>rs\<close> have been replaced one after the
  other.\<close>

definition restored_entries :: "case_api \<Rightarrow> (str \<times> str) list \<Rightarrow> str \<Rightarrow> str" where
  "restored_entries P rs text =
     foldl (\<lambda>acc e. replace_all P False (fst e) (snd e) acc) text rs"

text \<open>The own properties of an object come in enumeration order and are distinct.\<close>

definition own_property_order :: "str list \<Rightarrow> bool" where
  "own_property_order ks \<longleftrightarrow> distinct ks \<and> sorted_wrt (\<lambda>a b. \<not> goes_before b a) ks"

fun plain_value :: "'n js_value \<Rightarrow> bool" where
  "plain_value (JArray items) = (\<forall>item \<in> set items. plain_value item)"
| "plain_value (JObject es) =
     (own_property_order (map fst es) \<and> (\<forall>e \<in> set es. plain_value (snd e)))"
| "plain_value v = True"

text \<open>The walker as the specification words it: the same value with every text leaf
  passed through \<open>f\<close>. And a value without the properties named \<open>__proto__\<close>,
  and the values that have no such property.\<close>

fun map_text_leaves :: "(str \<Rightarrow> str) \<Rightarrow> 'n js_value \<Rightarrow> 'n js_value" where
  "map_text_leaves f (JString s) = JString (f s)"
| "map_text_leaves f (JArray items) = JArray (map (map_text_leaves f) items)"
| "map_text_leaves f (JObject es) = JObject (map (\<lambda>e. (fst e, map_text_leaves f (snd e))) es)"
| "map_text_leaves f v = v"

primrec without_proto :: "'n js_value \<Rightarrow> 'n js_value" where
  "without_proto (JString s) = JString s"
| "without_proto (JArray items) = JArray (map without_proto items)"
| "without_proto (JObject es) =
     JObject (filter (\<lambda>e. fst e \<noteq> proto_key) (map (map_prod id without_proto) es))"
| "without_proto (JNumber n) = JNumber n"
| "without_proto (JBoolean b) = JBoolean b"
| "without_proto JNull = JNull"
| "without_proto JUndefined = JUndefined"

fun proto_free :: "'n js_value \<Rightarrow> bool" where
  "proto_free (JArray items) = (\<forall>item \<in> set items. proto_free item)"
| "proto_free (JObject es) = (\<forall>e \<in> set es. fst e \<noteq> proto_key \<and> proto_free (snd e))"
| "proto_free v = True"


section \<open>The operations over a store\<close>

text \<open>
  The table, the array of keys that \<open>sort\<close> reorders in place, the reverse table and
  the array that \<open>push\<close> extends are objects of the heap. The store is the list of
  its cells, a reference is an index, and a new cell is appended.
\<close>

datatype cell = ObjCell "str js_object" | ArrCell "str list"

type_synonym store = "cell list"

type_synonym ref = nat

definition alloc :: "cell \<Rightarrow> store \<Rightarrow> ref \<times> store" where
  "alloc c h = (length h, h @ [c])"

definition cell_at :: "store \<Rightarrow> ref \<Rightarrow> cell option" where
  "cell_at h r = (if r < length h then Some (h ! r) else None)"

definition obj_at :: "store \<Rightarrow> ref \<Rightarrow> str js_object" where
  "obj_at h r = (case cell_at h r of Some (ObjCell m) \<Rightarrow> m | _ \<Rightarrow> [])"

definition arr_at :: "store \<Rightarrow> ref \<Rightarrow> str list" where
  "arr_at h r = (case cell_at h r of Some (ArrCell xs) \<Rightarrow> xs | _ \<Rightarrow> [])"

fun mask_loop_st :: "case_api \<Rightarrow> ref \<Rightarrow> str list \<Rightarrow> str \<Rightarrow> store \<Rightarrow> str option" where
  "mask_loop_st P mappings [] maskedText h = Some maskedText"
| "mask_loop_st P mappings (realValue # ks) maskedText h =
     (case regexp_replace P True (escapeRegExp realValue)
             (placeholder_of (obj_at h mappings) realValue) maskedText of
        None \<Rightarrow> None
      | Some replaced \<Rightarrow> mask_loop_st P mappings ks replaced h)"

definition maskPII_st :: "case_api \<Rightarrow> str \<Rightarrow> ref \<Rightarrow> store \<Rightarrow> str option \<times> store" where
  "maskPII_st P text mappings h =
     (let (keys, h1) = alloc (ArrCell (obj_keys (obj_at h mappings))) h;
          h2 = h1[keys := ArrCell (sort_key (\<lambda>k. - int (length k)) (arr_at h1 keys))]
      in (mask_loop_st P mappings (arr_at h2 keys) text h2, h2))"

fun reverse_loop_st :: "(str \<times> str) list \<Rightarrow> ref \<Rightarrow> store \<Rightarrow> store" where
  "reverse_loop_st [] rm h = h"
| "reverse_loop_st ((realValue, placeholder) # es) rm h =
     reverse_loop_st es rm
       (if falsy_entry (obj_at h rm) placeholder
        then h[rm := ObjCell (obj_set placeholder realValue (obj_at h rm))] else h)"

definition unmaskPII_st :: "case_api \<Rightarrow> str \<Rightarrow> ref \<Rightarrow> store \<Rightarrow> str option \<times> store" where
  "unmaskPII_st P text mappings h =
     (let (rm, h1) = alloc (ObjCell []) h;
          h2 = reverse_loop_st (obj_at h1 mappings) rm h1
      in (unmask_loop P (obj_at h2 rm) text, h2))"

fun exposed_loop_st :: "case_api \<Rightarrow> str \<Rightarrow> str list \<Rightarrow> ref \<Rightarrow> store \<Rightarrow> store" where
  "exposed_loop_st P textLower [] ev h = h"
| "exposed_loop_st P textLower (realValue # ks) ev h =
     exposed_loop_st P textLower ks ev
       (if length realValue > 2 \<and> js_includes textLower (toLowerCase P realValue)
        then h[ev := ArrCell (arr_at h ev @ [realValue])] else h)"

record validation_st =
  isClean_st :: bool
  exposedValues_st :: ref

definition validateNoExposedPII_st ::
  "case_api \<Rightarrow> str \<Rightarrow> ref \<Rightarrow> store \<Rightarrow> validation_st \<times> store" where
  "validateNoExposedPII_st P text mappings h =
     (let (ev, h1) = alloc (ArrCell []) h;
          h2 = exposed_loop_st P (toLowerCase P text) (obj_keys (obj_at h1 mappings)) ev h1
      in (\<lparr>isClean_st = (length (arr_at h2 ev) = 0), exposedValues_st = ev\<rparr>, h2))"

text \<open>The keys that the blocks other than the name block write, and the data tokens.\<close>

definition other_keys :: "case_api \<Rightarrow> date_api \<Rightarrow> StudentInfo \<Rightarrow> str list" where
  "other_keys P date si = obj_keys (dob_block date si []) @ obj_keys (later_fields P si)"

definition DATA_TOKENS :: "str list" where
  "DATA_TOKENS = [STUDENT_NAME, STUDENT_FIRST, DOB, STUDENT_ID, SCHOOL, GRADE, PARENT_NAME, ADDRESS]"

definition data_tokens_only :: "PIIMappings \<Rightarrow> bool" where
  "data_tokens_only m \<longleftrightarrow> set (map snd m) \<subseteq> set DATA_TOKENS"

text \<open>The texts that the loops of \<open>maskPII\<close> and \<open>unmaskPII\<close> pass through.\<close>

fun mask_trace :: "case_api \<Rightarrow> PIIMappings \<Rightarrow> str list \<Rightarrow> str \<Rightarrow> str list" where
  "mask_trace P m [] t = [t]"
| "mask_trace P m (k # ks) t = t # mask_trace P m ks (replace_all P True k (placeholder_of m k) t)"

fun unmask_trace :: "case_api \<Rightarrow> (str \<times> str) list \<Rightarrow> str \<Rightarrow> str list" where
  "unmask_trace P [] t = [t]"
| "unmask_trace P ((p, v) # rs) t = t # unmask_trace P rs (replace_all P False p v t)"

section \<open>A platform and records used as examples\<close>

text \<open>
  The case conversions of Unicode on the code units below 256 (Latin-1): the platform of
  the examples, none of which has a code unit outside that range.
\<close>

definition latin1_lower :: "int \<Rightarrow> int" where
  "latin1_lower c =
     (if (65 \<le> c \<and> c \<le> 90) \<or> (192 \<le> c \<and> c \<le> 222 \<and> c \<noteq> 215) then c + 32 else c)"

definition latin1_upper :: "int \<Rightarrow> str" where
  "latin1_upper c =
     (if (97 \<le> c \<and> c \<le> 122) \<or> (224 \<le> c \<and> c \<le> 254 \<and> c \<noteq> 247) then [c - 32]
      else if c = 223 then [83, 83]
      else if c = 181 then [924]
      else if c = 255 then [376]
      else [c])"

definition latin1 :: case_api where
  "latin1 = \<lparr>toLowerCase = map latin1_lower, toUpperCase = (\<lambda>s. concat (map latin1_upper s))\<rparr>"

definition no_date :: date_api where
  "no_date = (\<lambda>s. None)"

definition only_name :: "str \<Rightarrow> StudentInfo" where
  "only_name n = \<lparr>name = n, dateOfBirth = [], studentId = [], school = [],
     grade = [], parentName = [], parentEmail = None, address = None\<rparr>"

definition april_second :: date_api where
  "april_second =
     (\<lambda>s. if s = lit ''2015-04-02''
          then Some (lit ''4/2/2015'', lit ''2015-04-02T00:00:00.000Z'')
          else None)"

definition born_april_second :: StudentInfo where
  "born_april_second = \<lparr>name = lit ''John Smith'', dateOfBirth = lit ''2015-04-02'',
     studentId = lit ''S-1042'', school = [], grade = lit ''5'', parentName = [],
     parentEmail = None, address = None\<rparr>"

definition id_is_birth_date :: StudentInfo where
  "id_is_birth_date = \<lparr>name = lit ''John Smith'', dateOfBirth = lit ''2015-04-02'',
     studentId = lit ''2015-04-02'', school = [], grade = [], parentName = [],
     parentEmail = None, address = None\<rparr>"

definition eve_grade_K :: StudentInfo where
  "eve_grade_K = \<lparr>name = lit ''Eve Adams'', dateOfBirth = [], studentId = [], school = [],
     grade = lit ''K'', parentName = [], parentEmail = None, address = None\<rparr>"


definition same_name_parent :: StudentInfo where
  "same_name_parent = \<lparr>name = lit ''John Smith'', dateOfBirth = [], studentId = [],
     school = [], grade = [], parentName = lit ''John Smith'', parentEmail = None,
     address = None\<rparr>"



definition said_text :: str where
  "said_text = lit ''John Smith said John is happy''"

definition said_name_masked :: str where
  "said_name_masked = lit ''[STUDENT_NAME] said John is happy''"

definition said_masked :: str where
  "said_masked = lit ''[STUDENT_NAME] said [STUDENT_FIRST] is happy''"

definition said_name_restored :: str where
  "said_name_restored = lit ''John Smith said [STUDENT_FIRST] is happy''"

definition john_smith_table :: PIIMappings where
  "john_smith_table = createPIIMappings latin1 no_date (only_name (lit ''John Smith''))"

section \<open>Case folding, matching and occurrence\<close>

lemma ascii_Nil: "ascii []"
  by (simp add: ascii_def)

lemma ascii_Cons: "ascii (c # s) \<longleftrightarrow> c < 128 \<and> ascii s"
  by (simp add: ascii_def)

lemma ascii_append: "ascii (a @ b) \<longleftrightarrow> ascii a \<and> ascii b"
  by (simp add: ascii_def)

lemma ascii_take: "ascii s \<Longrightarrow> ascii (take n s)"
  unfolding ascii_def list_all_iff using in_set_takeD by fast

lemma ascii_drop: "ascii s \<Longrightarrow> ascii (drop n s)"
  unfolding ascii_def list_all_iff using in_set_dropD by fast

lemma ascii_member: "ascii s \<Longrightarrow> c \<in> set s \<Longrightarrow> c < 128"
  by (simp add: ascii_def list_all_iff)

lemma ascii_takeWhile: "ascii s \<Longrightarrow> ascii (split_first sep s)"
  unfolding ascii_def list_all_iff split_first_def using set_takeWhileD by fast





lemma faithful_lower: "ascii_faithful P \<Longrightarrow> ascii s \<Longrightarrow> toLowerCase P s = map lower_code s"
  by (simp add: ascii_faithful_def)

lemma faithful_upper: "ascii_faithful P \<Longrightarrow> ascii s \<Longrightarrow> toUpperCase P s = map upper_code s"
  by (simp add: ascii_faithful_def)

lemma upper_lower_code_iff: "upper_code a = upper_code b \<longleftrightarrow> lower_code a = lower_code b"
  unfolding upper_code_def lower_code_def by (auto split: if_splits)

lemma canonicalize_False: "canonicalize P False c = c"
  by (simp add: canonicalize_def)

lemma canonicalize_ascii:
  assumes "ascii_faithful P" and "c < 128"
  shows "canonicalize P True c = upper_code c"
proof -
  have "toUpperCase P [c] = [upper_code c]"
    using faithful_upper [OF assms(1), of "[c]"] assms(2) by (simp add: ascii_def)
  then show ?thesis using assms(2) by (simp add: canonicalize_def)
qed

lemma canonicalize_outside: "128 \<le> c \<Longrightarrow> 128 \<le> canonicalize P True c"
  by (auto simp: canonicalize_def split: list.splits)

lemma canonicalize_fixed:
  assumes f: "ascii_faithful P" and d: "d < 65 \<or> 90 < d \<and> d < 97 \<or> 122 < d \<and> d < 128"
  shows "canonicalize P True c = canonicalize P True d \<longleftrightarrow> c = d"
proof -
  from d have d128: "d < 128" by auto
  have cd: "canonicalize P True d = d"
    using canonicalize_ascii [OF f d128] d by (auto simp: upper_code_def)
  show ?thesis
  proof (cases "c < 128")
    case True
    then show ?thesis using canonicalize_ascii [OF f True] cd d by (auto simp: upper_code_def)
  next
    case False
    then have "128 \<le> canonicalize P True c" by (simp add: canonicalize_outside)
    then show ?thesis using cd d128 False by auto
  qed
qed

lemma canonicalize_open_bracket:
  "ascii_faithful P \<Longrightarrow> canonicalize P True c = canonicalize P True 91 \<longleftrightarrow> c = 91"
  by (rule canonicalize_fixed) simp_all

lemma canonicalize_close_bracket:
  "ascii_faithful P \<Longrightarrow> canonicalize P True c = canonicalize P True 93 \<longleftrightarrow> c = 93"
  by (rule canonicalize_fixed) simp_all

lemma match_here_iff:
  "match_here P ic p s \<longleftrightarrow>
     map (canonicalize P ic) (take (length p) s) = map (canonicalize P ic) p"
proof (induction P ic p s rule: match_here.induct)
  case (1 P ic s) show ?case by simp
next
  case (2 P ic p ps) show ?case by simp
next
  case (3 P ic p ps c cs) then show ?case by auto
qed

lemma match_here_ci: "match_here P True p s \<longleftrightarrow> ci_equal P (take (length p) s) p"
  unfolding match_here_iff ci_equal_def ..

lemma match_here_exact: "match_here P False p s \<longleftrightarrow> take (length p) s = p"
proof -
  have "canonicalize P False = (\<lambda>c. c)" by (rule ext) (rule canonicalize_False)
  then show ?thesis unfolding match_here_iff by simp
qed

lemma map_canonicalize_ascii:
  "ascii_faithful P \<Longrightarrow> ascii x \<Longrightarrow> map (canonicalize P True) x = map upper_code x"
  by (induction x) (simp_all add: ascii_Cons canonicalize_ascii)

lemma match_here_ascii:
  assumes "ascii_faithful P" and "ascii p" and "ascii s"
  shows "match_here P True p s \<longleftrightarrow> map upper_code (take (length p) s) = map upper_code p"
  unfolding match_here_iff
  by (simp only: map_canonicalize_ascii [OF assms(1,2)]
      map_canonicalize_ascii [OF assms(1) ascii_take [OF assms(3)]])

lemma match_here_platform:
  assumes "ascii_faithful P" and "ascii_faithful Q" and "ascii p" and "ascii s"
  shows "match_here P ic p s = match_here Q ic p s"
proof (cases ic)
  case True
  then show ?thesis using match_here_ascii [OF assms(1,3,4)] match_here_ascii [OF assms(2,3,4)] by simp
next
  case False
  then show ?thesis by (simp add: match_here_exact)
qed

lemma starts_with_iff: "starts_with s n \<longleftrightarrow> take (length n) s = n"
  by (induction s n rule: starts_with.induct) auto

lemma js_includes_iff: "js_includes s n \<longleftrightarrow> (\<exists>i \<in> {..length s}. take (length n) (drop i s) = n)"
proof (induction s)
  case Nil show ?case by (auto simp: starts_with_iff)
next
  case (Cons c s)
  have "{..length (c # s)} = insert 0 (Suc ` {..length s})"
    by (auto simp: image_iff atMost_Suc_eq_insert_0)
  then show ?case using Cons by (simp add: starts_with_iff del: starts_with.simps)
qed

lemma occurs_ci_match: "occurs_ci P k t \<longleftrightarrow> (\<exists>i \<in> {..length t}. match_here P True k (drop i t))"
proof (induction t)
  case Nil show ?case by simp
next
  case (Cons c t)
  have "{..length (c # t)} = insert 0 (Suc ` {..length t})"
    by (auto simp: image_iff atMost_Suc_eq_insert_0)
  then show ?case using Cons by (simp del: match_here.simps)
qed

lemma occurs_ci_Nil: "occurs_ci P k [] \<longleftrightarrow> k = []"
  by (cases k) simp_all

lemma occurs_ci_Cons: "occurs_ci P k (c # t) \<longleftrightarrow> match_here P True k (c # t) \<or> occurs_ci P k t"
  by simp

declare occurs_ci.simps [simp del]

lemma occurs_up_to_case_iff:
  "occurs_up_to_case k t \<longleftrightarrow>
     (\<exists>i \<in> {..length t}. map lower_code (take (length k) (drop i t)) = map lower_code k)"
proof (induction t)
  case Nil show ?case by auto
next
  case (Cons c t)
  have "{..length (c # t)} = insert 0 (Suc ` {..length t})"
    by (auto simp: image_iff atMost_Suc_eq_insert_0)
  then show ?case using Cons by simp
qed

lemma map_upper_lower_iff: "map upper_code a = map upper_code b \<longleftrightarrow> map lower_code a = map lower_code b"
  by (induction a arbitrary: b) (auto simp: upper_lower_code_iff Cons_eq_map_conv)

text \<open>On ASCII texts the masker, the validator and the notion that does not refer to the
  platform agree on what occurs up to case.\<close>

lemma occurs_ci_ascii:
  assumes "ascii_faithful P" and "ascii k" and "ascii t"
  shows "occurs_ci P k t \<longleftrightarrow> occurs_up_to_case k t"
proof -
  have "match_here P True k (drop i t)
      \<longleftrightarrow> map lower_code (take (length k) (drop i t)) = map lower_code k" for i
    using match_here_ascii [OF assms(1,2) ascii_drop [OF assms(3)]]
    by (simp add: map_upper_lower_iff)
  then show ?thesis unfolding occurs_ci_match occurs_up_to_case_iff by simp
qed

lemma includes_lower_ascii:
  assumes "ascii_faithful P" and "ascii k" and "ascii t"
  shows "js_includes (toLowerCase P t) (toLowerCase P k) \<longleftrightarrow> occurs_up_to_case k t"
  unfolding js_includes_iff occurs_up_to_case_iff
  by (simp add: faithful_lower [OF assms(1,2)] faithful_lower [OF assms(1,3)] take_map drop_map)

lemma occurs_ci_iff_split:
  "occurs_ci P k t \<longleftrightarrow> (\<exists>a w b. t = a @ w @ b \<and> ci_equal P w k)"
proof
  assume "occurs_ci P k t"
  then obtain i where "ci_equal P (take (length k) (drop i t)) k"
    unfolding occurs_ci_match match_here_ci by auto
  moreover have "t = take i t @ take (length k) (drop i t) @ drop (length k) (drop i t)"
    by (simp only: append_take_drop_id)
  ultimately show "\<exists>a w b. t = a @ w @ b \<and> ci_equal P w k" by blast
next
  assume "\<exists>a w b. t = a @ w @ b \<and> ci_equal P w k"
  then obtain a w b where t: "t = a @ w @ b" and w: "ci_equal P w k" by blast
  from w have "length w = length k" unfolding ci_equal_def
    using map_eq_imp_length_eq by blast
  then have "take (length k) (drop (length a) t) = w" using t by simp
  moreover have "length a \<le> length t" using t by simp
  ultimately show "occurs_ci P k t" unfolding occurs_ci_match match_here_ci using w by auto
qed

section \<open>Facts about replacement\<close>

lemma expand_template_plain:
  "36 \<notin> set t \<Longrightarrow> expand_template t a b c = t"
  by (induction t a b c rule: expand_template.induct) auto

lemma regexp_special_syntax: "regexp_special c = syntax_character c"
  by (auto simp: regexp_special_def syntax_character_def lit_def backslash_def)

text \<open>The escaped key is a literal pattern, and the pattern is the key.\<close>

lemma regexp_chars_escapeRegExp: "regexp_chars (escapeRegExp s) = Some s"
proof (induction s)
  case Nil show ?case by (simp add: escapeRegExp_def)
next
  case (Cons c s)
  have step: "escapeRegExp (c # s) = (if regexp_special c then [backslash, c] else [c]) @ escapeRegExp s"
    by (simp add: escapeRegExp_def)
  show ?case
  proof (cases "regexp_special c")
    case True
    then show ?thesis using Cons step by (simp add: regexp_special_syntax)
  next
    case False
    then have nb: "c \<noteq> backslash" and ns: "\<not> syntax_character c"
      by (simp_all add: regexp_special_def regexp_special_syntax [symmetric])
    show ?thesis
    proof (cases "escapeRegExp s")
      case Nil then show ?thesis using Cons step False ns by simp
    next
      case (Cons d r) then show ?thesis using Cons.IH step False nb ns by simp
    qed
  qed
qed

lemma regexp_replace_escaped:
  "regexp_replace P ic (escapeRegExp k) t text = Some (replace_all P ic k t text)"
  by (simp add: regexp_replace_def regexp_chars_escapeRegExp)

lemma replace_from_nomatch:
  "\<not> match_here P ic pat (c # cs) \<Longrightarrow>
   replace_from P ic pat t seen (c # cs) = c # replace_from P ic pat t (seen @ [c]) cs"
  by (subst replace_from.simps) simp

lemma replace_from_end: "pat \<noteq> [] \<Longrightarrow> replace_from P ic pat t seen [] = []"
  by (subst replace_from.simps) (cases pat; simp)

lemma replace_from_match:
  "pat \<noteq> [] \<Longrightarrow> match_here P ic pat rest \<Longrightarrow> 36 \<notin> set t \<Longrightarrow>
   replace_from P ic pat t seen rest =
     t @ replace_from P ic pat t (seen @ take (length pat) rest) (drop (length pat) rest)"
  by (subst replace_from.simps) (simp add: expand_template_plain Let_def)

lemma replace_from_empty_Nil:
  "36 \<notin> set t \<Longrightarrow> replace_from P ic [] t seen [] = t"
  by (subst replace_from.simps) (simp add: expand_template_plain)

lemma replace_from_empty_Cons:
  "36 \<notin> set t \<Longrightarrow>
   replace_from P ic [] t seen (c # cs) = t @ c # replace_from P ic [] t (seen @ [c]) cs"
  by (subst replace_from.simps) (simp add: expand_template_plain)

lemma match_here_nonempty: "match_here P ic pat rest \<Longrightarrow> pat \<noteq> [] \<Longrightarrow> rest \<noteq> []"
  by (cases pat; cases rest) auto

lemma match_here_append: "match_here P ic k a \<Longrightarrow> match_here P ic k (a @ b)"
  by (induction P ic k a rule: match_here.induct) auto

lemma occurs_ci_prefix: "occurs_ci P k u \<Longrightarrow> occurs_ci P k (u @ v)"
  unfolding occurs_ci_iff_split by (metis append.assoc)

lemma occurs_ci_suffix: "occurs_ci P k v \<Longrightarrow> occurs_ci P k (u @ v)"
  unfolding occurs_ci_iff_split by (metis append.assoc)

lemma ci_equal_length: "ci_equal P w k \<Longrightarrow> length w = length k"
  unfolding ci_equal_def using map_eq_imp_length_eq by blast

lemma ci_equal_foreign:
  assumes "ci_equal P w k" and "foreign_to P c k"
  shows "c \<notin> set w"
proof
  assume "c \<in> set w"
  then have "canonicalize P True c \<in> set (map (canonicalize P True) w)" by simp
  then have "canonicalize P True c \<in> set (map (canonicalize P True) k)"
    using assms(1) by (simp only: ci_equal_def)
  then show False using assms(2) unfolding foreign_to_def by auto
qed

lemma occurs_ci_separator:
  assumes k: "k \<noteq> []" and f: "foreign_to P c k"
  shows "occurs_ci P k (u @ c # v) \<longleftrightarrow> occurs_ci P k u \<or> occurs_ci P k v"
proof
  assume "occurs_ci P k (u @ c # v)"
  then obtain a w b where t: "u @ c # v = a @ w @ b" and w: "ci_equal P w k"
    unfolding occurs_ci_iff_split by blast
  from w k have wne: "w \<noteq> []" using ci_equal_length by fastforce
  from w f have cw: "c \<notin> set w" by (rule ci_equal_foreign)
  from t obtain us where "(u = a @ us \<and> us @ c # v = w @ b) \<or> (u @ us = a \<and> c # v = us @ w @ b)"
    by (auto simp: append_eq_append_conv2)
  then show "occurs_ci P k u \<or> occurs_ci P k v"
  proof
    assume h: "u = a @ us \<and> us @ c # v = w @ b"
    then obtain ws where "(us = w @ ws \<and> ws @ c # v = b) \<or> (us @ ws = w \<and> c # v = ws @ b)"
      by (auto simp: append_eq_append_conv2)
    then show ?thesis
    proof
      assume "us = w @ ws \<and> ws @ c # v = b"
      then have "u = a @ w @ ws" using h by simp
      then show ?thesis using w unfolding occurs_ci_iff_split by blast
    next
      assume h2: "us @ ws = w \<and> c # v = ws @ b"
      show ?thesis
      proof (cases ws)
        case Nil
        then have "u = a @ w @ []" using h h2 by simp
        then show ?thesis using w unfolding occurs_ci_iff_split by blast
      next
        case (Cons d ds)
        then have "c \<in> set w" using h2 by auto
        then show ?thesis using cw by simp
      qed
    qed
  next
    assume h: "u @ us = a \<and> c # v = us @ w @ b"
    show ?thesis
    proof (cases us)
      case Nil
      then have "c \<in> set w" using h wne by (cases w) auto
      then show ?thesis using cw by simp
    next
      case (Cons d ds)
      then have "v = ds @ w @ b" using h by simp
      then show ?thesis using w unfolding occurs_ci_iff_split by blast
    qed
  qed
next
  assume "occurs_ci P k u \<or> occurs_ci P k v"
  then show "occurs_ci P k (u @ c # v)"
    using occurs_ci_prefix [of P k u "c # v"] occurs_ci_suffix [of P k v "u @ [c]"] by auto
qed

lemma token_like_split:
  assumes "token_like p"
  obtains body where "p = 91 # body @ [93]"
proof -
  from assms have l: "2 \<le> length p" and h: "hd p = 91" and e: "last p = 93"
    by (simp_all add: token_like_def)
  from l obtain c r where p: "p = c # r" and r: "r \<noteq> []" by (cases p) (auto simp: Suc_le_eq)
  from r have "r = butlast r @ [last r]" by simp
  with p h e r have "p = 91 # butlast r @ [93]" by simp
  then show thesis by (rule that)
qed

lemma foreign_brackets:
  "ascii_faithful P \<Longrightarrow> bracket_free k \<Longrightarrow> foreign_to P 91 k \<and> foreign_to P 93 k"
  unfolding bracket_free_def foreign_to_def
  using canonicalize_open_bracket [of P] canonicalize_close_bracket [of P] by auto

lemma occurs_ci_around_token:
  assumes f: "ascii_faithful P" and k: "k \<noteq> []" and bf: "bracket_free k"
    and p: "token_like p" and np: "\<not> occurs_ci P k p"
  shows "occurs_ci P k (u @ p @ v) \<longleftrightarrow> occurs_ci P k u \<or> occurs_ci P k v"
proof -
  from p obtain body where pb: "p = 91 # body @ [93]" by (rule token_like_split)
  have nb: "\<not> occurs_ci P k body"
    using np pb occurs_ci_prefix [of P k body "[93]"] occurs_ci_suffix [of P k "body @ [93]" "[91]"]
    by auto
  from f bf have f1: "foreign_to P 91 k" and f2: "foreign_to P 93 k"
    using foreign_brackets by auto
  have "occurs_ci P k (u @ p @ v) \<longleftrightarrow> occurs_ci P k (u @ 91 # (body @ 93 # v))"
    by (simp add: pb)
  also have "\<dots> \<longleftrightarrow> occurs_ci P k u \<or> occurs_ci P k (body @ 93 # v)"
    by (rule occurs_ci_separator [OF k f1])
  also have "\<dots> \<longleftrightarrow> occurs_ci P k u \<or> occurs_ci P k body \<or> occurs_ci P k v"
    by (simp add: occurs_ci_separator [OF k f2])
  finally show ?thesis using nb by simp
qed

text \<open>Replacing some other pattern does not create an occurrence of k.\<close>

lemma replace_keeps_absent:
  assumes k: "k \<noteq> []"
    and sep: "\<And>u v. occurs_ci P k (u @ p @ v) \<longleftrightarrow> occurs_ci P k u \<or> occurs_ci P k v"
    and plain: "36 \<notin> set p"
  shows "\<not> occurs_ci P k (g @ s) \<Longrightarrow> \<not> occurs_ci P k (g @ replace_from P ic pat p seen s)"
proof (induction "length s" arbitrary: s g seen rule: less_induct)
  case less
  note absent = \<open>\<not> occurs_ci P k (g @ s)\<close>
  have ng: "\<not> occurs_ci P k g" using absent occurs_ci_prefix by blast
  have ns: "\<not> occurs_ci P k s" using absent occurs_ci_suffix by blast
  show ?case
  proof (cases "match_here P ic pat s")
    case m: True
    show ?thesis
    proof (cases "pat = []")
      case True
      show ?thesis
      proof (cases s)
        case Nil
        then have "replace_from P ic pat p seen s = p @ []"
          using True plain by (simp add: replace_from_empty_Nil)
        then show ?thesis using sep [of g "[]"] ng k by (simp add: occurs_ci_Nil)
      next
        case (Cons c cs)
        then have r: "replace_from P ic pat p seen s = p @ c # replace_from P ic pat p (seen @ [c]) cs"
          using True plain by (simp add: replace_from_empty_Cons)
        have "\<not> occurs_ci P k ([c] @ replace_from P ic pat p (seen @ [c]) cs)"
          using less.hyps [of cs "[c]" "seen @ [c]"] Cons ns by simp
        then show ?thesis using r sep [of g] ng by simp
      qed
    next
      case False
      let ?n = "length pat"
      from m False have sne: "s \<noteq> []" by (rule match_here_nonempty)
      from False have "0 < ?n" by simp
      with sne have shorter: "length (drop ?n s) < length s" by simp
      have r: "replace_from P ic pat p seen s = p @ replace_from P ic pat p (seen @ take ?n s) (drop ?n s)"
        using False m plain by (rule replace_from_match)
      have "\<not> occurs_ci P k (drop ?n s)"
      proof
        assume "occurs_ci P k (drop ?n s)"
        then have "occurs_ci P k (take ?n s @ drop ?n s)" by (rule occurs_ci_suffix)
        then show False using ns by simp
      qed
      then have "\<not> occurs_ci P k ([] @ replace_from P ic pat p (seen @ take ?n s) (drop ?n s))"
        using less.hyps [OF shorter, of "[]"] by simp
      then show ?thesis using r sep [of g] ng by simp
    qed
  next
    case nm: False
    show ?thesis
    proof (cases s)
      case Nil
      have "pat \<noteq> []" using nm Nil by (cases pat) auto
      then show ?thesis using Nil ng by (simp add: replace_from_end)
    next
      case (Cons c cs)
      then have r: "replace_from P ic pat p seen s = c # replace_from P ic pat p (seen @ [c]) cs"
        using nm by (simp add: replace_from_nomatch)
      have "\<not> occurs_ci P k ((g @ [c]) @ replace_from P ic pat p (seen @ [c]) cs)"
        using less.hyps [of cs "g @ [c]" "seen @ [c]"] Cons absent by simp
      then show ?thesis using r by simp
    qed
  qed
qed

text \<open>Replacing k itself leaves no occurrence of k.\<close>

lemma replace_removes_all:
  assumes k: "k \<noteq> []"
    and sep: "\<And>u v. occurs_ci P k (u @ p @ v) \<longleftrightarrow> occurs_ci P k u \<or> occurs_ci P k v"
    and plain: "36 \<notin> set p"
  shows "\<forall>i < length g. \<not> match_here P True k (drop i (g @ s)) \<Longrightarrow>
         \<not> occurs_ci P k (g @ replace_from P True k p seen s)"
proof (induction "length s" arbitrary: s g seen rule: less_induct)
  case less
  note nostart = \<open>\<forall>i < length g. \<not> match_here P True k (drop i (g @ s))\<close>
  have ng: "\<not> occurs_ci P k g"
  proof
    assume "occurs_ci P k g"
    then obtain i where i: "i \<le> length g" and mi: "match_here P True k (drop i g)"
      unfolding occurs_ci_match by auto
    have "i < length g" using i mi k by (cases "i = length g"; cases k) auto
    moreover have "match_here P True k (drop i (g @ s))"
      using mi i match_here_append [of P True k "drop i g" s] by simp
    ultimately show False using nostart by blast
  qed
  show ?case
  proof (cases "match_here P True k s")
    case m: True
    let ?n = "length k"
    from m k have sne: "s \<noteq> []" by (rule match_here_nonempty)
    from k have "0 < ?n" by simp
    with sne have shorter: "length (drop ?n s) < length s" by simp
    have r: "replace_from P True k p seen s = p @ replace_from P True k p (seen @ take ?n s) (drop ?n s)"
      using k m plain by (rule replace_from_match)
    have "\<not> occurs_ci P k ([] @ replace_from P True k p (seen @ take ?n s) (drop ?n s))"
      using less.hyps [OF shorter, of "[]"] by simp
    then show ?thesis using r sep [of g] ng by simp
  next
    case nm: False
    show ?thesis
    proof (cases s)
      case Nil
      then show ?thesis using ng k by (simp add: replace_from_end)
    next
      case (Cons c cs)
      then have r: "replace_from P True k p seen s = c # replace_from P True k p (seen @ [c]) cs"
        using nm by (simp add: replace_from_nomatch)
      have "\<forall>i < length (g @ [c]). \<not> match_here P True k (drop i ((g @ [c]) @ cs))"
      proof (intro allI impI)
        fix i assume "i < length (g @ [c])"
        then consider "i < length g" | "i = length g" by fastforce
        then show "\<not> match_here P True k (drop i ((g @ [c]) @ cs))"
        proof cases
          case 1 then show ?thesis using nostart Cons by simp
        next
          case 2 then show ?thesis using nm Cons by simp
        qed
      qed
      then have "\<not> occurs_ci P k ((g @ [c]) @ replace_from P True k p (seen @ [c]) cs)"
        using less.hyps [of cs "g @ [c]" "seen @ [c]"] Cons by simp
      then show ?thesis using r by simp
    qed
  qed
qed

text \<open>A pattern that matches nowhere leaves the text as it is, whatever the template.\<close>

lemma replace_from_absent:
  "\<forall>i \<in> {..length t}. \<not> match_here P ic pat (drop i t) \<Longrightarrow> replace_from P ic pat tmpl seen t = t"
proof (induction t arbitrary: seen)
  case Nil
  then have "pat \<noteq> []" by (cases pat) auto
  then show ?case by (rule replace_from_end)
next
  case (Cons c cs)
  from Cons.prems have nm: "\<not> match_here P ic pat (c # cs)" by force
  have "\<forall>i \<in> {..length cs}. \<not> match_here P ic pat (drop i cs)"
  proof
    fix i assume "i \<in> {..length cs}"
    then have "Suc i \<in> {..length (c # cs)}" by simp
    then have "\<not> match_here P ic pat (drop (Suc i) (c # cs))" using Cons.prems by blast
    then show "\<not> match_here P ic pat (drop i cs)" by simp
  qed
  then show ?case using Cons.IH nm by (simp add: replace_from_nomatch)
qed

lemma replace_all_absent_ci: "\<not> occurs_ci P k t \<Longrightarrow> replace_all P True k p t = t"
  unfolding replace_all_def occurs_ci_match by (rule replace_from_absent) simp

lemma replace_all_absent_exact: "\<not> js_includes t k \<Longrightarrow> replace_all P False k p t = t"
  unfolding replace_all_def js_includes_iff by (rule replace_from_absent) (simp add: match_here_exact)

text \<open>Replacement on ASCII texts depends on the platform through the ASCII letters only,
  and replacement without the flag \<open>i\<close> not at all.\<close>

lemma ascii_expand_template:
  "ascii t \<Longrightarrow> ascii a \<Longrightarrow> ascii b \<Longrightarrow> ascii c \<Longrightarrow> ascii (expand_template t a b c)"
  by (induction t a b c rule: expand_template.induct) (auto simp: ascii_Cons ascii_append ascii_Nil)

lemma replace_from_platform:
  assumes f: "ascii_faithful P" and g: "ascii_faithful Q" and p: "ascii pat"
  shows "ascii rest \<Longrightarrow> replace_from P ic pat t seen rest = replace_from Q ic pat t seen rest"
proof (induction "length rest" arbitrary: rest seen rule: less_induct)
  case less
  note m = match_here_platform [OF f g p less.prems, of ic]
  have L: "replace_from P ic pat t seen rest =
     (if match_here P ic pat rest then
        (let matched = take (length pat) rest; following = drop (length pat) rest;
             out = expand_template t seen matched following
         in if pat = [] then
              (case rest of [] \<Rightarrow> out
               | c # cs \<Rightarrow> out @ c # replace_from P ic pat t (seen @ [c]) cs)
            else out @ replace_from P ic pat t (seen @ matched) following)
      else
        (case rest of [] \<Rightarrow> []
         | c # cs \<Rightarrow> c # replace_from P ic pat t (seen @ [c]) cs))"
    by (rule replace_from.simps)
  have R: "replace_from Q ic pat t seen rest =
     (if match_here Q ic pat rest then
        (let matched = take (length pat) rest; following = drop (length pat) rest;
             out = expand_template t seen matched following
         in if pat = [] then
              (case rest of [] \<Rightarrow> out
               | c # cs \<Rightarrow> out @ c # replace_from Q ic pat t (seen @ [c]) cs)
            else out @ replace_from Q ic pat t (seen @ matched) following)
      else
        (case rest of [] \<Rightarrow> []
         | c # cs \<Rightarrow> c # replace_from Q ic pat t (seen @ [c]) cs))"
    by (rule replace_from.simps)
  have step: "replace_from P ic pat t (seen @ [c]) cs = replace_from Q ic pat t (seen @ [c]) cs"
    if "rest = c # cs" for c cs
    using less.hyps [of cs] less.prems that by (simp add: ascii_Cons)
  have far: "replace_from P ic pat t (seen @ take (length pat) rest) (drop (length pat) rest)
      = replace_from Q ic pat t (seen @ take (length pat) rest) (drop (length pat) rest)"
    if "pat \<noteq> []" and "rest \<noteq> []"
  proof -
    have "length (drop (length pat) rest) < length rest" using that by simp
    then show ?thesis using less.hyps ascii_drop [OF less.prems] by blast
  qed
  show ?case
  proof (cases rest)
    case Nil
    show ?thesis
    proof (cases "pat = []")
      case True then show ?thesis unfolding L R by (simp add: m Nil)
    next
      case False
      then show ?thesis by (simp add: Nil replace_from_end)
    qed
  next
    case (Cons c cs)
    then have ne: "rest \<noteq> []" by simp
    show ?thesis
    proof (cases "pat = []")
      case True
      show ?thesis unfolding L R using step [OF Cons] by (simp add: m Cons True)
    next
      case False
      show ?thesis unfolding L R m using step [OF Cons] far [OF False ne]
        by (simp add: Cons False Let_def)
    qed
  qed
qed

lemma ascii_replace_from:
  assumes t: "ascii t"
  shows "ascii seen \<Longrightarrow> ascii rest \<Longrightarrow> ascii (replace_from P ic pat t seen rest)"
proof (induction "length rest" arbitrary: rest seen rule: less_induct)
  case less
  note s = less.prems(1) and r = less.prems(2)
  have L: "replace_from P ic pat t seen rest =
     (if match_here P ic pat rest then
        (let matched = take (length pat) rest; following = drop (length pat) rest;
             out = expand_template t seen matched following
         in if pat = [] then
              (case rest of [] \<Rightarrow> out
               | c # cs \<Rightarrow> out @ c # replace_from P ic pat t (seen @ [c]) cs)
            else out @ replace_from P ic pat t (seen @ matched) following)
      else
        (case rest of [] \<Rightarrow> []
         | c # cs \<Rightarrow> c # replace_from P ic pat t (seen @ [c]) cs))"
    by (rule replace_from.simps)
  have out: "ascii (expand_template t seen (take (length pat) rest) (drop (length pat) rest))"
    using t s r by (intro ascii_expand_template ascii_take ascii_drop)
  have step: "c < 128 \<and> ascii (replace_from P ic pat t (seen @ [c]) cs)"
    if "rest = c # cs" for c cs
    using less.hyps [of cs "seen @ [c]"] s r that by (simp add: ascii_append ascii_Cons ascii_Nil)
  have far: "ascii (replace_from P ic pat t (seen @ take (length pat) rest) (drop (length pat) rest))"
    if "pat \<noteq> []" and "rest \<noteq> []"
  proof -
    have "length (drop (length pat) rest) < length rest" using that by simp
    then show ?thesis
      using less.hyps [of "drop (length pat) rest" "seen @ take (length pat) rest"] s r
      by (simp add: ascii_append ascii_take ascii_drop)
  qed
  show ?case
  proof (cases rest)
    case Nil
    show ?thesis
    proof (cases "pat = []")
      case True then show ?thesis unfolding L using out by (simp add: Nil ascii_Nil)
    next
      case False
      then show ?thesis by (simp add: Nil replace_from_end ascii_Nil)
    qed
  next
    case (Cons c cs)
    then have ne: "rest \<noteq> []" by simp
    show ?thesis
    proof (cases "pat = []")
      case True
      show ?thesis unfolding L using step [OF Cons] out
        by (simp add: Cons True ascii_append ascii_Cons)
    next
      case False
      show ?thesis unfolding L using step [OF Cons] far [OF False ne] out
        by (simp add: Cons False Let_def ascii_append ascii_Cons)
    qed
  qed
qed

lemma match_here_exact_platform: "match_here P False pat rest = match_here Q False pat rest"
  by (simp add: match_here_exact)

lemma replace_from_exact_platform:
  "replace_from P False pat t seen rest = replace_from Q False pat t seen rest"
proof (induction "length rest" arbitrary: rest seen rule: less_induct)
  case less
  note m = match_here_exact_platform [of P pat rest Q]
  have L: "replace_from P False pat t seen rest =
     (if match_here P False pat rest then
        (let matched = take (length pat) rest; following = drop (length pat) rest;
             out = expand_template t seen matched following
         in if pat = [] then
              (case rest of [] \<Rightarrow> out
               | c # cs \<Rightarrow> out @ c # replace_from P False pat t (seen @ [c]) cs)
            else out @ replace_from P False pat t (seen @ matched) following)
      else
        (case rest of [] \<Rightarrow> []
         | c # cs \<Rightarrow> c # replace_from P False pat t (seen @ [c]) cs))"
    by (rule replace_from.simps)
  have R: "replace_from Q False pat t seen rest =
     (if match_here Q False pat rest then
        (let matched = take (length pat) rest; following = drop (length pat) rest;
             out = expand_template t seen matched following
         in if pat = [] then
              (case rest of [] \<Rightarrow> out
               | c # cs \<Rightarrow> out @ c # replace_from Q False pat t (seen @ [c]) cs)
            else out @ replace_from Q False pat t (seen @ matched) following)
      else
        (case rest of [] \<Rightarrow> []
         | c # cs \<Rightarrow> c # replace_from Q False pat t (seen @ [c]) cs))"
    by (rule replace_from.simps)
  have step: "replace_from P False pat t (seen @ [c]) cs = replace_from Q False pat t (seen @ [c]) cs"
    if "rest = c # cs" for c cs
    using less [of cs] that by simp
  have far: "replace_from P False pat t (seen @ take (length pat) rest) (drop (length pat) rest)
      = replace_from Q False pat t (seen @ take (length pat) rest) (drop (length pat) rest)"
    if "pat \<noteq> []" and "rest \<noteq> []"
  proof -
    have "length (drop (length pat) rest) < length rest" using that by simp
    then show ?thesis using less by blast
  qed
  show ?case
  proof (cases rest)
    case Nil
    show ?thesis
    proof (cases "pat = []")
      case True then show ?thesis unfolding L R by (simp add: m Nil)
    next
      case False
      then show ?thesis by (simp add: Nil replace_from_end)
    qed
  next
    case (Cons c cs)
    then have ne: "rest \<noteq> []" by simp
    show ?thesis
    proof (cases "pat = []")
      case True
      show ?thesis unfolding L R using step [OF Cons] by (simp add: m Cons True)
    next
      case False
      show ?thesis unfolding L R m using step [OF Cons] far [OF False ne]
        by (simp add: Cons False Let_def)
    qed
  qed
qed

section \<open>The platform of the examples\<close>

lemma latin1_faithful: "ascii_faithful latin1"
proof -
  have l: "map latin1_lower s = map lower_code s" if "ascii s" for s
    using that by (induction s) (auto simp: ascii_Cons latin1_lower_def lower_code_def)
  have u: "concat (map latin1_upper s) = map upper_code s" if "ascii s" for s
    using that by (induction s) (auto simp: ascii_Cons latin1_upper_def upper_code_def)
  show ?thesis unfolding ascii_faithful_def by (simp add: latin1_def l u)
qed

section \<open>Facts about object assignment\<close>

lemma obj_keys_obj_update: "obj_keys (obj_update k v m) = obj_keys m"
  by (induction m) (auto simp: obj_keys_def obj_update_def)

lemma set_obj_keys_obj_insert: "set (obj_keys (obj_insert k v m)) = insert k (set (obj_keys m))"
proof (induction m)
  case Nil show ?case by (simp add: obj_keys_def)
next
  case (Cons e m)
  obtain k' v' where e: "e = (k', v')" by (cases e)
  show ?case using Cons unfolding e obj_keys_def by (cases "goes_before k k'") auto
qed

lemma obj_set_cases:
  "obj_set k v m =
     (if k = proto_key then m
      else if k \<in> set (obj_keys m) then obj_update k v m else obj_insert k v m)"
  by (simp add: obj_set_def obj_keys_def)

lemma set_obj_keys_obj_set:
  "set (obj_keys (obj_set k v m)) =
     (if k = proto_key then set (obj_keys m) else insert k (set (obj_keys m)))"
  by (auto simp: obj_set_cases obj_keys_obj_update set_obj_keys_obj_insert)

lemma map_of_obj_update:
  "map_of (obj_update k v m) k' = (if k' = k \<and> k \<in> fst ` set m then Some v else map_of m k')"
proof (induction m)
  case Nil show ?case by (simp add: obj_update_def)
next
  case (Cons e m)
  obtain a b where e: "e = (a, b)" by (cases e)
  have step: "obj_update k v ((a, b) # m) = (if a = k then (a, v) else (a, b)) # obj_update k v m"
    by (simp add: obj_update_def)
  show ?case unfolding e step using Cons by (cases "k \<in> fst ` set m") force+
qed

lemma map_of_obj_insert:
  "k \<notin> fst ` set m \<Longrightarrow> map_of (obj_insert k v m) k' = (if k' = k then Some v else map_of m k')"
proof (induction m)
  case Nil show ?case by simp
next
  case (Cons e m)
  obtain a b where e: "e = (a, b)" by (cases e)
  show ?case using Cons unfolding e by (cases "goes_before k a") auto
qed

lemma obj_get_obj_set:
  "obj_get (obj_set k v m) k' = (if k' = k \<and> k \<noteq> proto_key then Some v else obj_get m k')"
  by (simp add: obj_get_def obj_set_def map_of_obj_update map_of_obj_insert)

lemma distinct_obj_insert:
  "k \<notin> set (obj_keys m) \<Longrightarrow> distinct (obj_keys m) \<Longrightarrow> distinct (obj_keys (obj_insert k v m))"
proof (induction m)
  case Nil then show ?case by (simp add: obj_keys_def)
next
  case (Cons e m)
  obtain a b where e: "e = (a, b)" by (cases e)
  have "set (obj_keys (obj_insert k v m)) = insert k (set (obj_keys m))"
    by (rule set_obj_keys_obj_insert)
  then show ?case using Cons unfolding e obj_keys_def by (cases "goes_before k a") auto
qed

lemma distinct_obj_set: "distinct (obj_keys m) \<Longrightarrow> distinct (obj_keys (obj_set k v m))"
  by (simp add: obj_set_cases obj_keys_obj_update distinct_obj_insert)


lemma obj_get_empty: "obj_get [] k = None"
  by (simp add: obj_get_def)

lemma obj_keys_empty: "obj_keys [] = []"
  by (simp add: obj_keys_def)

lemmas block_simps = obj_get_obj_set set_obj_keys_obj_set obj_get_empty obj_keys_empty

lemmas placeholder_defs = STUDENT_NAME_def STUDENT_FIRST_def DOB_def STUDENT_ID_def SCHOOL_def
  GRADE_def PARENT_NAME_def ADDRESS_def HE_SHE_def HIM_HER_def HIS_HER_def

section \<open>Keys of the built table\<close>









text \<open>On a record whose name, institution and guardian are ASCII texts the table depends
  on the platform through the ASCII letters only.\<close>

lemma name_block_platform:
  assumes "ascii_faithful P" and "ascii_faithful Q" and "ascii (name si)"
  shows "name_block P si m = name_block Q si m"
proof -
  note a = assms(3) and f = ascii_takeWhile [OF assms(3), of 32]
  show ?thesis
    by (simp add: name_block_def faithful_lower [OF assms(1) a] faithful_lower [OF assms(2) a]
        faithful_upper [OF assms(1) a] faithful_upper [OF assms(2) a]
        faithful_lower [OF assms(1) f] faithful_lower [OF assms(2) f]
        faithful_upper [OF assms(1) f] faithful_upper [OF assms(2) f])
qed

lemma school_block_platform:
  assumes "ascii_faithful P" and "ascii_faithful Q" and "ascii (school si)"
  shows "school_block P si m = school_block Q si m"
  by (simp add: school_block_def faithful_lower [OF assms(1,3)] faithful_lower [OF assms(2,3)]
      faithful_upper [OF assms(1,3)] faithful_upper [OF assms(2,3)])

lemma parent_block_platform:
  assumes "ascii_faithful P" and "ascii_faithful Q" and "ascii (parentName si)"
  shows "parent_block P si m = parent_block Q si m"
  by (simp add: parent_block_def faithful_lower [OF assms(1,3)] faithful_lower [OF assms(2,3)]
      faithful_upper [OF assms(1,3)] faithful_upper [OF assms(2,3)])

lemma createPIIMappings_platform:
  assumes "ascii_faithful P" and "ascii_faithful Q"
    and "ascii (name si)" and "ascii (school si)" and "ascii (parentName si)"
  shows "createPIIMappings P date si = createPIIMappings Q date si"
  unfolding createPIIMappings_def
  by (simp only: name_block_platform [OF assms(1,2,3)] school_block_platform [OF assms(1,2,4)]
      parent_block_platform [OF assms(1,2,5)])

section \<open>The leak validator\<close>

lemma exposed_loop_filter:
  "exposed_loop P lowered ks acc =
     acc @ filter (\<lambda>k. 2 < length k \<and> js_includes lowered (toLowerCase P k)) ks"
  by (induction ks arbitrary: acc) auto

lemma exposedValues_filter:
  "exposedValues (validateNoExposedPII P text m) =
     filter (\<lambda>k. 2 < length k \<and> js_includes (toLowerCase P text) (toLowerCase P k)) (obj_keys m)"
  by (simp add: validateNoExposedPII_def Let_def exposed_loop_filter)

lemma isClean_iff:
  "isClean (validateNoExposedPII P text m) \<longleftrightarrow> exposedValues (validateNoExposedPII P text m) = []"
  by (simp add: validateNoExposedPII_def Let_def)

text \<open>
  Claim C8. For every mapping table and text, \<open>validateNoExposedPII\<close> reports a key of
  the table exactly when the key is longer than two code units and occurs in the text up
  to case, which is to say that its lower-case form is part of the lower-case form of the
  text; the reported list is the list of those keys, in the order of the table, so a key
  of one or two code units is never reported; and \<open>isClean\<close> holds exactly when the
  reported list is empty. For a key and a text of ASCII characters, to occur up to case is
  that some window of the text equals the key up to the case of the letters.
\<close>

theorem validate_reports_exactly:
  "(k \<in> set (exposedValues (validateNoExposedPII P text m)) \<longleftrightarrow>
      k \<in> set (obj_keys m) \<and> 2 < length k
      \<and> js_includes (toLowerCase P text) (toLowerCase P k))
   \<and> exposedValues (validateNoExposedPII P text m) =
       filter (\<lambda>k. 2 < length k \<and> js_includes (toLowerCase P text) (toLowerCase P k))
         (obj_keys m)
   \<and> (isClean (validateNoExposedPII P text m) \<longleftrightarrow>
       exposedValues (validateNoExposedPII P text m) = [])
   \<and> (ascii_faithful P \<longrightarrow> ascii text \<longrightarrow> ascii k \<longrightarrow>
        (js_includes (toLowerCase P text) (toLowerCase P k) \<longleftrightarrow> occurs_up_to_case k text))"
  using exposedValues_filter [of P _ m] isClean_iff [of P _ m] includes_lower_ascii [of P k "text"]
  by auto

text \<open>The grade \<open>K\<close> is in the text and is not reported; the first name is, also where
  the text has an accented capital.\<close>

theorem validate_reports_exactly_witness:
  "exposedValues (validateNoExposedPII latin1 (lit ''ask john in K'')
       [(lit ''John'', STUDENT_FIRST), (lit ''K'', GRADE)])
     = [lit ''John'']
   \<and> occurs_up_to_case (lit ''K'') (lit ''ask john in K'')
   \<and> occurs_up_to_case (lit ''John'') (lit ''ask john in K'')
   \<and> \<not> isClean (validateNoExposedPII latin1 (lit ''ask john in K'')
       [(lit ''John'', STUDENT_FIRST), (lit ''K'', GRADE)])
   \<and> exposedValues (validateNoExposedPII latin1 (lit ''JOS'' @ [201] @ lit '' ran'')
       [(lit ''Jos'' @ [233], STUDENT_FIRST)])
     = [lit ''Jos'' @ [233]]"
proof -
  let ?t = "lit ''ask john in K''"
  let ?m = "[(lit ''John'', STUDENT_FIRST), (lit ''K'', GRADE)]"
  have a: "js_includes (toLowerCase latin1 ?t) (toLowerCase latin1 (lit ''John''))" by code_simp
  have b: "occurs_up_to_case (lit ''K'') ?t" by code_simp
  have c: "ascii ?t" "ascii (lit ''John'')" by code_simp+
  have d: "exposedValues (validateNoExposedPII latin1 ?t ?m) = [lit ''John'']" by code_simp
  have e: "exposedValues (validateNoExposedPII latin1 (lit ''JOS'' @ [201] @ lit '' ran'')
       [(lit ''Jos'' @ [233], STUDENT_FIRST)]) = [lit ''Jos'' @ [233]]" by code_simp
  show ?thesis
    using validate_reports_exactly [of "lit ''John''" latin1 ?t ?m] a b c d e latin1_faithful
    by simp
qed







section \<open>The mapping builder\<close>

lemma id_block_get:
  "obj_get (id_block si m) k =
     (if k \<in> set (obj_keys (id_block si [])) then Some STUDENT_ID else obj_get m k)"
  by (simp add: id_block_def block_simps)

lemma school_block_get:
  "obj_get (school_block P si m) k =
     (if k \<in> set (obj_keys (school_block P si [])) then Some SCHOOL else obj_get m k)"
  by (simp add: school_block_def block_simps)

lemma grade_block_get:
  "obj_get (grade_block si m) k =
     (if k \<in> set (obj_keys (grade_block si [])) then Some GRADE else obj_get m k)"
  by (simp add: grade_block_def block_simps)

lemma parent_block_get:
  "obj_get (parent_block P si m) k =
     (if k \<in> set (obj_keys (parent_block P si [])) then Some PARENT_NAME else obj_get m k)"
  by (simp add: parent_block_def block_simps)

lemma address_block_get:
  "obj_get (address_block si m) k =
     (if k \<in> set (obj_keys (address_block si [])) then Some ADDRESS else obj_get m k)"
  by (simp add: address_block_def block_simps split: option.splits)

lemma id_block_keyset:
  "set (obj_keys (id_block si m)) = set (obj_keys (id_block si [])) \<union> set (obj_keys m)"
  by (simp add: id_block_def block_simps)

lemma school_block_keyset:
  "set (obj_keys (school_block P si m)) = set (obj_keys (school_block P si [])) \<union> set (obj_keys m)"
  by (auto simp: school_block_def block_simps)

lemma grade_block_keyset:
  "set (obj_keys (grade_block si m)) = set (obj_keys (grade_block si [])) \<union> set (obj_keys m)"
  by (simp add: grade_block_def block_simps)

lemma parent_block_keyset:
  "set (obj_keys (parent_block P si m)) = set (obj_keys (parent_block P si [])) \<union> set (obj_keys m)"
  by (auto simp: parent_block_def block_simps)

lemma address_block_keyset:
  "set (obj_keys (address_block si m)) = set (obj_keys (address_block si [])) \<union> set (obj_keys m)"
  by (simp add: address_block_def block_simps split: option.splits)

text \<open>The later blocks lay their entries over the table they are given.\<close>

lemma later_fields_keyset:
  "set (obj_keys (later_fields P si)) =
     set (obj_keys (address_block si [])) \<union> set (obj_keys (parent_block P si []))
     \<union> set (obj_keys (grade_block si [])) \<union> set (obj_keys (school_block P si []))
     \<union> set (obj_keys (id_block si []))"
  unfolding later_fields_def
  by (subst address_block_keyset, subst parent_block_keyset, subst grade_block_keyset,
      subst school_block_keyset) auto

lemma later_blocks_get:
  "obj_get (address_block si (parent_block P si (grade_block si (school_block P si (id_block si m))))) k
     = (if k \<in> set (obj_keys (later_fields P si)) then obj_get (later_fields P si) k else obj_get m k)"
  unfolding later_fields_keyset
  by (simp add: later_fields_def address_block_get parent_block_get grade_block_get
      school_block_get id_block_get obj_get_empty)

lemma later_fields_not_DOB: "obj_get (later_fields P si) k \<noteq> Some DOB"
  by (simp add: later_fields_def address_block_get parent_block_get grade_block_get
      school_block_get id_block_get obj_get_empty placeholder_defs lit_def)

lemma name_block_not_DOB: "obj_get (name_block P si []) k \<noteq> Some DOB"
  by (simp add: name_block_def Let_def block_simps placeholder_defs lit_def)

lemma dob_block_get:
  "obj_get (dob_block date si m) k =
     (if dateOfBirth si \<noteq> [] \<and> k \<noteq> proto_key \<and>
         (k = dateOfBirth si \<or>
          (\<exists>l i. date (dateOfBirth si) = Some (l, i) \<and> (k = l \<or> k = split_first 84 i)))
      then Some DOB else obj_get m k)"
  by (auto simp: dob_block_def Let_def block_simps split: option.splits)

lemma built_get:
  "obj_get (createPIIMappings P date si) k =
     (if k \<in> set (obj_keys (later_fields P si)) then obj_get (later_fields P si) k
      else obj_get (dob_block date si (name_block P si [])) k)"
  unfolding createPIIMappings_def by (rule later_blocks_get)

lemma built_keys_dob:
  "set (obj_keys (dob_block date si (name_block P si []))) \<subseteq> set (obj_keys (createPIIMappings P date si))"
  unfolding createPIIMappings_def
  using address_block_keyset parent_block_keyset grade_block_keyset school_block_keyset
    id_block_keyset by blast

text \<open>
  Claim C4. For a record with a non-empty full name the builder is to map the name and
  its two case forms to the full-name token, and to create first-name entries only when
  the first word differs from the name. The guard of the source covers the exact first
  word only: the two assignments of its case forms are unguarded and come last. For the
  single-word name \<open>John\<close> the table therefore maps \<open>john\<close> and \<open>JOHN\<close> to the
  first-name token, and only the exact name to the full-name token.
\<close>

theorem single_word_name_table:
  assumes "ascii_faithful P"
  shows "createPIIMappings P date \<lparr>name = lit ''John'', dateOfBirth = [], studentId = [],
      school = [], grade = [], parentName = [], parentEmail = e, address = None\<rparr>
   = [(lit ''John'', STUDENT_NAME), (lit ''john'', STUDENT_FIRST), (lit ''JOHN'', STUDENT_FIRST)]"
proof -
  let ?si = "\<lparr>name = lit ''John'', dateOfBirth = [], studentId = [],
      school = [], grade = [], parentName = [], parentEmail = e, address = None\<rparr>"
  have a: "ascii (name ?si)" "ascii (school ?si)" "ascii (parentName ?si)" by code_simp+
  have "createPIIMappings P date ?si = createPIIMappings latin1 date ?si"
    using assms latin1_faithful a by (rule createPIIMappings_platform)
  also have "\<dots> = [(lit ''John'', STUDENT_NAME), (lit ''john'', STUDENT_FIRST),
      (lit ''JOHN'', STUDENT_FIRST)]"
    by code_simp
  finally show ?thesis .
qed

text \<open>The record with the name \<open>John\<close> alone, on the platform of the examples.\<close>

theorem single_word_name_table_witness:
  "createPIIMappings latin1 no_date (only_name (lit ''John''))
   = [(lit ''John'', STUDENT_NAME), (lit ''john'', STUDENT_FIRST), (lit ''JOHN'', STUDENT_FIRST)]"
  using single_word_name_table [OF latin1_faithful, of no_date None] by (simp add: only_name_def)

text \<open>
  Claim C5, as the code has it. For every record with a non-empty date of birth (other
  than the text \<open>__proto__\<close>, which no assignment makes a key) the raw value is a key
  of the table; it carries the date-of-birth token unless a later field (identifier,
  institution, grade, guardian name, address) writes the same text, and so do, when the
  platform parses the value as a date, the locale rendering and the part of the ISO
  rendering before \<open>T\<close>. No other key carries the date-of-birth token, so an
  unparseable date leaves at most the raw value under it; a key that a later field writes
  carries the token of that field. The builder is a total function: no record makes it
  fail.
\<close>

theorem dob_entries:
  assumes "dateOfBirth si \<noteq> []" and "dateOfBirth si \<noteq> proto_key"
  shows "dateOfBirth si \<in> set (obj_keys (createPIIMappings P date si))
    \<and> (dateOfBirth si \<notin> set (obj_keys (later_fields P si)) \<longrightarrow>
         obj_get (createPIIMappings P date si) (dateOfBirth si) = Some DOB)
    \<and> (\<forall>l i. date (dateOfBirth si) = Some (l, i) \<longrightarrow>
         (l \<noteq> proto_key \<longrightarrow> l \<notin> set (obj_keys (later_fields P si)) \<longrightarrow>
            obj_get (createPIIMappings P date si) l = Some DOB)
       \<and> (split_first 84 i \<noteq> proto_key \<longrightarrow>
          split_first 84 i \<notin> set (obj_keys (later_fields P si)) \<longrightarrow>
            obj_get (createPIIMappings P date si) (split_first 84 i) = Some DOB))
    \<and> (\<forall>k. obj_get (createPIIMappings P date si) k = Some DOB \<longrightarrow>
         k = dateOfBirth si \<or>
         (\<exists>l i. date (dateOfBirth si) = Some (l, i) \<and> (k = l \<or> k = split_first 84 i)))
    \<and> (\<forall>k \<in> set (obj_keys (later_fields P si)).
         obj_get (createPIIMappings P date si) k = obj_get (later_fields P si) k
         \<and> obj_get (createPIIMappings P date si) k \<noteq> Some DOB)"
proof -
  have "dateOfBirth si \<in> set (obj_keys (dob_block date si (name_block P si [])))"
    using assms by (auto simp: dob_block_def Let_def block_simps split: option.splits)
  then have key: "dateOfBirth si \<in> set (obj_keys (createPIIMappings P date si))"
    using built_keys_dob by blast
  have only: "k = dateOfBirth si \<or>
         (\<exists>l i. date (dateOfBirth si) = Some (l, i) \<and> (k = l \<or> k = split_first 84 i))"
    if "obj_get (createPIIMappings P date si) k = Some DOB" for k
    using that later_fields_not_DOB [of P si k] name_block_not_DOB [of P si k]
    by (simp add: built_get dob_block_get split: if_splits)
  have later: "obj_get (createPIIMappings P date si) k = obj_get (later_fields P si) k
         \<and> obj_get (createPIIMappings P date si) k \<noteq> Some DOB"
    if "k \<in> set (obj_keys (later_fields P si))" for k
    using that later_fields_not_DOB [of P si k] by (simp add: built_get)
  have first: "dateOfBirth si \<in> set (obj_keys (createPIIMappings P date si))
    \<and> (dateOfBirth si \<notin> set (obj_keys (later_fields P si)) \<longrightarrow>
         obj_get (createPIIMappings P date si) (dateOfBirth si) = Some DOB)
    \<and> (\<forall>l i. date (dateOfBirth si) = Some (l, i) \<longrightarrow>
         (l \<noteq> proto_key \<longrightarrow> l \<notin> set (obj_keys (later_fields P si)) \<longrightarrow>
            obj_get (createPIIMappings P date si) l = Some DOB)
       \<and> (split_first 84 i \<noteq> proto_key \<longrightarrow>
          split_first 84 i \<notin> set (obj_keys (later_fields P si)) \<longrightarrow>
            obj_get (createPIIMappings P date si) (split_first 84 i) = Some DOB))"
    using key assms by (auto simp: built_get dob_block_get)
  show ?thesis using first only later by blast
qed

text \<open>A record whose later fields differ from the date: the raw value and the locale
  rendering carry the token, and without a parsed date the rendering is no key.\<close>

theorem dob_entries_witness:
  "obj_get (createPIIMappings latin1 april_second born_april_second) (lit ''2015-04-02'') = Some DOB
   \<and> obj_get (createPIIMappings latin1 april_second born_april_second) (lit ''4/2/2015'') = Some DOB
   \<and> obj_get (createPIIMappings latin1 no_date born_april_second) (lit ''4/2/2015'') = None"
proof -
  have a: "dateOfBirth born_april_second \<noteq> []" "dateOfBirth born_april_second \<noteq> proto_key"
    by code_simp+
  have b: "dateOfBirth born_april_second = lit ''2015-04-02''" by (simp add: born_april_second_def)
  have c: "april_second (lit ''2015-04-02'')
      = Some (lit ''4/2/2015'', lit ''2015-04-02T00:00:00.000Z'')"
    by (simp add: april_second_def)
  have d: "lit ''2015-04-02'' \<notin> set (obj_keys (later_fields latin1 born_april_second))" by code_simp
  have e: "lit ''4/2/2015'' \<notin> set (obj_keys (later_fields latin1 born_april_second))" by code_simp
  have f: "obj_get (createPIIMappings latin1 no_date born_april_second) (lit ''4/2/2015'') = None"
    by code_simp
  have g: "lit ''4/2/2015'' \<noteq> proto_key" by code_simp
  show ?thesis
    using dob_entries [OF a, of latin1 april_second] b c d e f g by simp
qed

text \<open>
  Claim C5 as stated fails where a later field has the text of the date: the identifier
  is written after the date of birth and takes the key over.
\<close>

theorem dob_raw_value_overwritten:
  "dateOfBirth id_is_birth_date \<noteq> []
   \<and> obj_get (createPIIMappings latin1 april_second id_is_birth_date) (dateOfBirth id_is_birth_date)
       = Some STUDENT_ID
   \<and> obj_get (createPIIMappings latin1 april_second id_is_birth_date) (dateOfBirth id_is_birth_date)
       \<noteq> Some DOB"
  by code_simp

section \<open>The masker\<close>

lemma mask_loop_foldl: "mask_loop P m ks t = Some (replaced_keys P m ks t)"
  by (induction ks arbitrary: t) (simp_all add: regexp_replace_escaped replaced_keys_def)

lemma maskPII_total: "maskPII P text m = Some (replaced_keys P m (sortedKeys m) text)"
  by (simp add: maskPII_def mask_loop_foldl)

lemma replaced_keys_Nil: "replaced_keys P m [] t = t"
  by (simp add: replaced_keys_def)

lemma replaced_keys_Cons:
  "replaced_keys P m (k # ks) t = replaced_keys P m ks (replace_all P True k (placeholder_of m k) t)"
  by (simp add: replaced_keys_def)

lemma placeholder_of_value:
  "k \<in> set (obj_keys m) \<Longrightarrow> placeholder_of m k \<in> set (map snd m)"
proof -
  assume "k \<in> set (obj_keys m)"
  then obtain v where "(k, v) \<in> set m" by (auto simp: obj_keys_def)
  then obtain p where "map_of m k = Some p" using weak_map_of_SomeI by fastforce
  then show ?thesis
    using map_of_SomeD [of m k p] by (force simp: placeholder_of_def obj_get_def)
qed

lemma replaced_keys_removes:
  assumes f: "ascii_faithful P" and tok: "tokens_only m" and safe: "maskable P m k"
  shows "set ks \<subseteq> set (obj_keys m) \<Longrightarrow> k \<in> set ks \<or> \<not> occurs_ci P k t \<Longrightarrow>
         \<not> occurs_ci P k (replaced_keys P m ks t)"
proof (induction ks arbitrary: t)
  case Nil then show ?case by (simp add: replaced_keys_Nil)
next
  case (Cons h ks)
  let ?p = "placeholder_of m h"
  let ?t = "replace_all P True h ?p t"
  from Cons.prems(1) have hk: "h \<in> set (obj_keys m)" and sub: "set ks \<subseteq> set (obj_keys m)"
    by simp_all
  from hk have pv: "?p \<in> set (map snd m)" by (rule placeholder_of_value)
  with tok have tl: "token_like ?p" unfolding tokens_only_def by blast
  then have plain: "36 \<notin> set ?p" by (simp add: token_like_def)
  from safe have k: "k \<noteq> []" and bf: "bracket_free k" by (simp_all add: maskable_def)
  from safe pv have np: "\<not> occurs_ci P k ?p" unfolding maskable_def by blast
  have sep: "occurs_ci P k (u @ ?p @ v) \<longleftrightarrow> occurs_ci P k u \<or> occurs_ci P k v" for u v
    using f k bf tl np by (rule occurs_ci_around_token)
  consider (absent) "\<not> occurs_ci P k t" | (now) "h = k" | (later) "k \<in> set ks"
    using Cons.prems(2) by auto
  then have "k \<in> set ks \<or> \<not> occurs_ci P k ?t"
  proof cases
    case absent
    then have "\<not> occurs_ci P k ([] @ replace_from P True h ?p [] t)"
      using replace_keeps_absent [OF k sep plain, of "[]" t True h "[]"] by simp
    then show ?thesis by (simp add: replace_all_def)
  next
    case now
    have "\<not> occurs_ci P k ([] @ replace_from P True k ?p [] t)"
      using replace_removes_all [OF k sep plain, of "[]" t "[]"] by simp
    then show ?thesis using now by (simp add: replace_all_def)
  next
    case later then show ?thesis by simp
  qed
  then show ?case unfolding replaced_keys_Cons using Cons.IH [OF sub] by blast
qed

lemma sortedKeys_sorted: "sorted_wrt (\<lambda>a b. length b \<le> length a) (sortedKeys m)"
proof -
  have "sorted (map (\<lambda>k. - int (length k)) (sortedKeys m))"
    unfolding sortedKeys_def by (rule sorted_sort_key)
  then show ?thesis by (simp add: sorted_map)
qed

lemma sortedKeys_mset: "mset (sortedKeys m) = mset (obj_keys m)"
  by (simp add: sortedKeys_def)

lemma sortedKeys_set: "set (sortedKeys m) = set (obj_keys m)"
  using sortedKeys_mset by (rule mset_eq_setD)

lemma values_obj_update: "set (map snd (obj_update k v m)) \<subseteq> insert v (set (map snd m))"
  by (induction m) (auto simp: obj_update_def)

lemma values_obj_insert: "set (map snd (obj_insert k v m)) \<subseteq> insert v (set (map snd m))"
proof (induction m)
  case Nil show ?case by simp
next
  case (Cons e m)
  obtain a b where e: "e = (a, b)" by (cases e)
  show ?case using Cons unfolding e by (cases "goes_before k a") auto
qed

lemma values_obj_set: "set (map snd (obj_set k v m)) \<subseteq> insert v (set (map snd m))"
  unfolding obj_set_def using values_obj_update [of k v m] values_obj_insert [of k v m] by auto

lemma tokens_only_obj_set: "token_like v \<Longrightarrow> tokens_only m \<Longrightarrow> tokens_only (obj_set k v m)"
  unfolding tokens_only_def using values_obj_set [of k v m] by blast

lemma token_like_placeholders:
  "token_like STUDENT_NAME" "token_like STUDENT_FIRST" "token_like DOB" "token_like STUDENT_ID"
  "token_like SCHOOL" "token_like GRADE" "token_like PARENT_NAME" "token_like ADDRESS"
  by (simp_all add: token_like_def placeholder_defs lit_def)

lemma built_tokens_only: "tokens_only (createPIIMappings P date si)"
proof -
  have e: "tokens_only []" by (simp add: tokens_only_def)
  note ts = tokens_only_obj_set token_like_placeholders
  have 1: "tokens_only (name_block P si m)" if "tokens_only m" for m
    using that by (simp add: name_block_def Let_def ts)
  have 2: "tokens_only (dob_block date si m)" if "tokens_only m" for m
    using that by (simp add: dob_block_def Let_def ts split: option.splits)
  have 3: "tokens_only (id_block si m)" if "tokens_only m" for m
    using that by (simp add: id_block_def ts)
  have 4: "tokens_only (school_block P si m)" if "tokens_only m" for m
    using that by (simp add: school_block_def ts)
  have 5: "tokens_only (grade_block si m)" if "tokens_only m" for m
    using that by (simp add: grade_block_def ts)
  have 6: "tokens_only (parent_block P si m)" if "tokens_only m" for m
    using that by (simp add: parent_block_def ts)
  have 7: "tokens_only (address_block si m)" if "tokens_only m" for m
    using that by (simp add: address_block_def ts split: option.splits)
  show ?thesis unfolding createPIIMappings_def by (intro 7 6 5 4 3 2 1 e)
qed

text \<open>
  Claim C2, as the code has it. The keys are processed in descending order of length,
  each key of the table once; the escaped key is a literal pattern that denotes the code
  units of the key, so the constructor of the pattern never fails and each step replaces
  all matches of the key itself, up to case, in the text the earlier steps produced. When
  the values of the table are placeholder tokens, the result has no occurrence up to case
  of any key that is not empty, has no bracket and occurs in no placeholder of the table
  (on a platform that converts the case of ASCII texts letter by letter, as every
  platform does).
\<close>

theorem mask_removes_maskable_keys:
  "sorted_wrt (\<lambda>a b. length b \<le> length a) (sortedKeys m)
   \<and> mset (sortedKeys m) = mset (obj_keys m)
   \<and> regexp_chars (escapeRegExp key) = Some key
   \<and> maskPII P text m
        = Some (foldl (\<lambda>acc k. replace_all P True k (placeholder_of m k) acc) text (sortedKeys m))
   \<and> (ascii_faithful P \<longrightarrow> tokens_only m \<longrightarrow>
        (\<forall>k \<in> set (obj_keys m). maskable P m k \<longrightarrow>
           (\<exists>masked. maskPII P text m = Some masked \<and> \<not> occurs_ci P k masked)))"
proof -
  have "\<not> occurs_ci P k (replaced_keys P m (sortedKeys m) text)"
    if "ascii_faithful P" and "tokens_only m" and "k \<in> set (obj_keys m)" and "maskable P m k" for k
    using replaced_keys_removes [OF that(1,2,4), of "sortedKeys m" "text"] that(3)
    by (simp add: sortedKeys_set)
  then show ?thesis
    using sortedKeys_sorted [of m] sortedKeys_mset [of m] regexp_chars_escapeRegExp [of key]
    by (simp add: maskPII_total replaced_keys_def)
qed

text \<open>The table of \<open>John Smith\<close>: the keys in the order they are processed, and a
  text with the name in upper and in lower case.\<close>

theorem mask_removes_maskable_keys_witness:
  "(\<exists>masked. maskPII latin1 (lit ''JOHN SMITH met john'') john_smith_table = Some masked
       \<and> \<not> occurs_ci latin1 (lit ''john'') masked)
   \<and> maskPII latin1 (lit ''JOHN SMITH met john'') john_smith_table
       = Some (lit ''[STUDENT_NAME] met [STUDENT_FIRST]'')
   \<and> sortedKeys john_smith_table
       = [lit ''John Smith'', lit ''john smith'', lit ''JOHN SMITH'', lit ''John'', lit ''john'',
          lit ''JOHN'']
   \<and> escapeRegExp (lit ''a.b'') = [97, 92, 46, 98]
   \<and> regexp_chars (lit ''a.b'') = None"
proof -
  let ?m = "john_smith_table"
  have a: "tokens_only ?m" by code_simp
  have b: "lit ''john'' \<in> set (obj_keys ?m)" by code_simp
  have c: "maskable latin1 ?m (lit ''john'')" by code_simp
  have d: "maskPII latin1 (lit ''JOHN SMITH met john'') ?m
      = Some (lit ''[STUDENT_NAME] met [STUDENT_FIRST]'')" by code_simp
  have e: "sortedKeys ?m = [lit ''John Smith'', lit ''john smith'', lit ''JOHN SMITH'',
      lit ''John'', lit ''john'', lit ''JOHN'']"
    by code_simp
  have g: "escapeRegExp (lit ''a.b'') = [97, 92, 46, 98]" "regexp_chars (lit ''a.b'') = None"
    by code_simp+
  have "\<exists>masked. maskPII latin1 (lit ''JOHN SMITH met john'') ?m = Some masked
       \<and> \<not> occurs_ci latin1 (lit ''john'') masked"
    using mask_removes_maskable_keys [of ?m "lit ''john''" latin1 "lit ''JOHN SMITH met john''"]
      a b c latin1_faithful by blast
  then show ?thesis using d e g by simp
qed

text \<open>
  Claim C2 as stated fails for a key that occurs inside a placeholder: \<open>eve\<close> is in
  \<open>[GRADE_LEVEL]\<close>, which the grade, the shortest key, brings in last. No key of
  the table longer than \<open>Eve\<close> is in the result, so the occurrence is not inside a
  larger mapped value.
\<close>

theorem mask_leaves_key_inside_token:
  "lit ''Eve'' \<in> set (obj_keys (createPIIMappings latin1 no_date eve_grade_K))
   \<and> maskPII latin1 (lit ''Eve is in grade K'') (createPIIMappings latin1 no_date eve_grade_K)
       = Some (lit ''[STUDENT_FIRST] is in grade [GRADE_LEVEL]'')
   \<and> occurs_ci latin1 (lit ''Eve'') (lit ''[STUDENT_FIRST] is in grade [GRADE_LEVEL]'')
   \<and> occurs_up_to_case (lit ''Eve'') (lit ''[STUDENT_FIRST] is in grade [GRADE_LEVEL]'')
   \<and> obj_keys (createPIIMappings latin1 no_date eve_grade_K)
       = [lit ''Eve Adams'', lit ''Eve'', lit ''eve adams'', lit ''EVE ADAMS'', lit ''eve'',
          lit ''EVE'', lit ''K'']"
  by code_simp

section \<open>Masking, then validating\<close>





section \<open>The structured walker\<close>

lemma obj_insert_last:
  "\<forall>k' \<in> set (obj_keys m). \<not> goes_before k k' \<Longrightarrow> obj_insert k v m = m @ [(k, v)]"
  by (induction m) (auto simp: obj_keys_def)

lemma assign_entries_snoc:
  "assign_entries (es @ [(k, v)]) = obj_set k v (assign_entries es)"
  by (simp add: assign_entries_def)

text \<open>Assigning the entries of an object one by one to an empty object gives the entries
  back, without those named \<open>__proto__\<close>.\<close>

lemma assign_entries_filter:
  "own_property_order (map fst es) \<Longrightarrow> assign_entries es = filter (\<lambda>e. fst e \<noteq> proto_key) es"
proof (induction es rule: rev_induct)
  case Nil show ?case by (simp add: assign_entries_def)
next
  case (snoc e es)
  obtain k v where e: "e = (k, v)" by (cases e)
  let ?kept = "filter (\<lambda>e. fst e \<noteq> proto_key) es"
  from snoc.prems have ord: "own_property_order (map fst es)"
    and new: "k \<notin> set (map fst es)" and last: "\<forall>k' \<in> set (map fst es). \<not> goes_before k k'"
    unfolding e own_property_order_def by (auto simp: sorted_wrt_append)
  have step: "assign_entries (es @ [e]) = obj_set k v ?kept"
    unfolding e assign_entries_snoc using snoc.IH [OF ord] by simp
  show ?case
  proof (cases "k = proto_key")
    case True
    then show ?thesis using step by (simp add: e obj_set_def)
  next
    case False
    have "k \<notin> set (map fst ?kept)" using new by auto
    then have "obj_set k v ?kept = obj_insert k v ?kept" using False by (simp add: obj_set_def)
    also have "\<dots> = ?kept @ [(k, v)]" using last by (intro obj_insert_last) (auto simp: obj_keys_def)
    finally show ?thesis using step False by (simp add: e)
  qed
qed

lemma all_results_map:
  "\<forall>x \<in> set xs. f x = Some (g x) \<Longrightarrow> all_results (map f xs) = Some (map g xs)"
  by (induction xs) simp_all

lemma without_proto_id: "proto_free v \<Longrightarrow> without_proto v = v"
proof (induction v)
  case (JArray items)
  then show ?case by (simp add: map_idI)
next
  case (JObject es)
  have "map_prod id without_proto e = e" if e: "e \<in> set es" for e
  proof -
    obtain k v where kv: "e = (k, v)" by (cases e)
    have "v \<in> Basic_BNFs.snds e" using kv by simp
    then have "without_proto v = v" using JObject.IH [OF e] JObject.prems e kv by auto
    then show ?thesis by (simp add: kv)
  qed
  then have "map (map_prod id without_proto) es = es" by (simp add: map_idI)
  moreover have "filter (\<lambda>e. fst e \<noteq> proto_key) es = es" using JObject.prems by (simp add: filter_id_conv)
  ultimately show ?case by simp
qed simp_all

text \<open>
  Claim C7. For a value built from texts, arrays, objects and other primitives the walker
  is to return a value of the same shape, order and key set with every text leaf masked.
  What \<open>maskPIIInObject\<close> returns is that value without the properties named
  \<open>__proto__\<close>: the source copies a property by the assignment \<open>masked[key] = ...\<close>,
  and an assignment to that name creates no property. Arrays keep their length and
  order, other properties keep their keys and their order, and numbers, booleans,
  \<open>null\<close> and \<open>undefined\<close> are returned as they are; the walker never fails. On a
  value that has no property of that name it returns what the claim says.
\<close>

theorem walker_drops_proto_keys:
  assumes "plain_value v"
  shows "maskPIIInObject P v m
           = Some (map_text_leaves (\<lambda>s. replaced_keys P m (sortedKeys m) s) (without_proto v))
       \<and> (proto_free v \<longrightarrow>
            maskPIIInObject P v m
              = Some (map_text_leaves (\<lambda>s. replaced_keys P m (sortedKeys m) s) v))"
proof -
  let ?f = "\<lambda>s. replaced_keys P m (sortedKeys m) s"
  have main: "maskPIIInObject P v m = Some (map_text_leaves ?f (without_proto v))"
    using assms
  proof (induction v)
    case (JString s)
    show ?case by (simp add: maskPII_total)
  next
    case (JArray items)
    let ?g = "\<lambda>item. map_text_leaves ?f (without_proto item)"
    have "\<forall>item \<in> set items. maskPIIInObject P item m = Some (?g item)"
      using JArray by simp
    then have "all_results (map (\<lambda>item. maskPIIInObject P item m) items) = Some (map ?g items)"
      by (rule all_results_map)
    then show ?case by (simp add: comp_def)
  next
    case (JObject es)
    let ?g = "\<lambda>e. (fst e, map_text_leaves ?f (without_proto (snd e)))"
    from JObject.prems have ord: "own_property_order (map fst es)"
      and sub: "\<forall>e \<in> set es. plain_value (snd e)" by simp_all
    have each: "with_key (map_prod id (\<lambda>v. maskPIIInObject P v m) e) = Some (?g e)"
      if e: "e \<in> set es" for e
    proof -
      obtain k v where kv: "e = (k, v)" by (cases e)
      have "v \<in> Basic_BNFs.snds e" using kv by simp
      then have "maskPIIInObject P v m = Some (map_text_leaves ?f (without_proto v))"
        using JObject.IH [OF e] sub e kv by auto
      then show ?thesis by (simp add: kv with_key_def)
    qed
    have "all_results (map with_key (map (map_prod id (\<lambda>v. maskPIIInObject P v m)) es))
        = all_results (map (\<lambda>e. with_key (map_prod id (\<lambda>v. maskPIIInObject P v m) e)) es)"
      by (simp add: comp_def)
    also have "\<dots> = Some (map ?g es)" using each by (intro all_results_map) blast
    finally have results:
      "all_results (map with_key (map (map_prod id (\<lambda>v. maskPIIInObject P v m)) es))
        = Some (map ?g es)" .
    have keys: "map fst (map ?g es) = map fst es" by (simp add: comp_def)
    have "own_property_order (map fst (map ?g es))" using ord by (simp only: keys)
    then have "assign_entries (map ?g es) = filter (\<lambda>e. fst e \<noteq> proto_key) (map ?g es)"
      by (rule assign_entries_filter)
    also have "\<dots> = map (\<lambda>e. (fst e, map_text_leaves ?f (snd e)))
        (filter (\<lambda>e. fst e \<noteq> proto_key) (map (map_prod id without_proto) es))"
      by (induction es) auto
    finally show ?case using results by simp
  qed simp_all
  then show ?thesis by (simp add: without_proto_id)
qed

text \<open>The record \<open>{ "__proto__": "x", "note": "John Smith", "count": 3 }\<close>, as
  \<open>JSON.parse\<close> gives it: the result has the keys \<open>note\<close> and \<open>count\<close> only.\<close>

theorem walker_drops_proto_keys_witness:
  "maskPIIInObject latin1
      (JObject [(lit ''__proto__'', JString (lit ''x'')), (lit ''note'', JString (lit ''John Smith'')),
                (lit ''count'', JNumber (3::int))])
      john_smith_table
   = Some (JObject [(lit ''note'', JString (lit ''[STUDENT_NAME]'')), (lit ''count'', JNumber 3)])"
proof -
  let ?v = "JObject [(lit ''__proto__'', JString (lit ''x'')),
      (lit ''note'', JString (lit ''John Smith'')), (lit ''count'', JNumber (3::int))]"
  have a: "plain_value ?v" by code_simp
  have b: "map_text_leaves (\<lambda>s. replaced_keys latin1 john_smith_table (sortedKeys john_smith_table) s)
        (without_proto ?v)
      = JObject [(lit ''note'', JString (lit ''[STUDENT_NAME]'')), (lit ''count'', JNumber 3)]"
    by code_simp
  show ?thesis using walker_drops_proto_keys [OF a, of latin1 john_smith_table] b by simp
qed

section \<open>The operations leave the table alone\<close>

lemma cell_at_append: "r < length h \<Longrightarrow> cell_at (h @ cs) r = cell_at h r"
  by (simp add: cell_at_def nth_append)

lemma cell_at_new: "cell_at (h @ [c]) (length h) = Some c"
  by (simp add: cell_at_def)

lemma cell_at_valid: "cell_at h r = Some c \<Longrightarrow> r < length h"
  by (simp add: cell_at_def split: if_splits)

lemma obj_at_old:
  "cell_at h r = Some (ObjCell m) \<Longrightarrow> obj_at (h @ cs) r = m"
  using cell_at_valid [of h r] by (simp add: obj_at_def cell_at_append)

lemma mask_loop_st_pure:
  "mask_loop_st P mappings ks t h = mask_loop P (obj_at h mappings) ks t"
  by (induction ks arbitrary: t) (simp_all split: option.splits)

lemma reverse_loop_st_pure:
  "reverse_loop_st es (length h) (h @ [ObjCell acc]) = h @ [ObjCell (reverse_loop es acc)]"
proof (induction es arbitrary: acc)
  case Nil show ?case by simp
next
  case (Cons e es)
  obtain realValue placeholder where e: "e = (realValue, placeholder)" by (cases e)
  have at: "obj_at (h @ [ObjCell acc]) (length h) = acc"
    by (simp add: obj_at_def cell_at_new)
  show ?case unfolding e using Cons [of "obj_set placeholder realValue acc"] Cons [of acc]
    by (simp add: at)
qed

lemma exposed_loop_st_pure:
  "exposed_loop_st P lowered ks (length h) (h @ [ArrCell acc])
     = h @ [ArrCell (exposed_loop P lowered ks acc)]"
proof (induction ks arbitrary: acc)
  case Nil show ?case by simp
next
  case (Cons k ks)
  have at: "arr_at (h @ [ArrCell acc]) (length h) = acc"
    by (simp add: arr_at_def cell_at_new)
  show ?case using Cons [of "acc @ [k]"] Cons [of acc] by (simp add: at)
qed

lemma maskPII_st_eq:
  assumes "cell_at h mappings = Some (ObjCell m)"
  shows "maskPII_st P text mappings h = (maskPII P text m, h @ [ArrCell (sortedKeys m)])"
proof -
  have m: "obj_at h mappings = m" using assms by (simp add: obj_at_def)
  have m2: "obj_at (h @ [ArrCell (sortedKeys m)]) mappings = m" using assms by (rule obj_at_old)
  have a1: "arr_at (h @ [ArrCell (obj_keys m)]) (length h) = obj_keys m"
    by (simp add: arr_at_def cell_at_new)
  have a2: "arr_at (h @ [ArrCell (sortedKeys m)]) (length h) = sortedKeys m"
    by (simp add: arr_at_def cell_at_new)
  show ?thesis
    by (simp add: maskPII_st_def alloc_def m a1 sortedKeys_def [symmetric] a2 m2
        mask_loop_st_pure maskPII_def)
qed

lemma unmaskPII_st_eq:
  assumes "cell_at h mappings = Some (ObjCell m)"
  shows "unmaskPII_st P text mappings h = (unmaskPII P text m, h @ [ObjCell (reverseMappings m)])"
proof -
  have m1: "obj_at (h @ [ObjCell []]) mappings = m" using assms by (rule obj_at_old)
  have r: "obj_at (h @ [ObjCell (reverseMappings m)]) (length h) = reverseMappings m"
    by (simp add: obj_at_def cell_at_new)
  show ?thesis
    by (simp add: unmaskPII_st_def alloc_def m1 reverse_loop_st_pure
        reverseMappings_def [symmetric] r unmaskPII_def)
qed

lemma validateNoExposedPII_st_eq:
  assumes "cell_at h mappings = Some (ObjCell m)"
  shows "validateNoExposedPII_st P text mappings h =
     (\<lparr>isClean_st = isClean (validateNoExposedPII P text m), exposedValues_st = length h\<rparr>,
      h @ [ArrCell (exposedValues (validateNoExposedPII P text m))])"
proof -
  have m1: "obj_at (h @ [ArrCell []]) mappings = m" using assms by (rule obj_at_old)
  have r: "arr_at (h @ [ArrCell xs]) (length h) = xs" for xs
    by (simp add: arr_at_def cell_at_new)
  show ?thesis
    by (simp add: validateNoExposedPII_st_def alloc_def m1 exposed_loop_st_pure r
        validateNoExposedPII_def Let_def)
qed

text \<open>
  Claim C9. Run over a store that holds the table at a reference, \<open>maskPII\<close>,
  \<open>unmaskPII\<close> and \<open>validateNoExposedPII\<close> leave every cell the store had,
  the table among them, as it was: they only add cells of their own (the sorted array of
  keys, the reverse table, the array of reported values). What each returns is the value
  of the function of the text and the table's entries alone.
\<close>

theorem table_never_mutated:
  assumes "cell_at h mappings = Some (ObjCell m)"
  shows "fst (maskPII_st P text mappings h) = maskPII P text m
       \<and> take (length h) (snd (maskPII_st P text mappings h)) = h
       \<and> cell_at (snd (maskPII_st P text mappings h)) mappings = Some (ObjCell m)
       \<and> fst (unmaskPII_st P text mappings h) = unmaskPII P text m
       \<and> take (length h) (snd (unmaskPII_st P text mappings h)) = h
       \<and> cell_at (snd (unmaskPII_st P text mappings h)) mappings = Some (ObjCell m)
       \<and> isClean_st (fst (validateNoExposedPII_st P text mappings h))
           = isClean (validateNoExposedPII P text m)
       \<and> arr_at (snd (validateNoExposedPII_st P text mappings h))
            (exposedValues_st (fst (validateNoExposedPII_st P text mappings h)))
           = exposedValues (validateNoExposedPII P text m)
       \<and> take (length h) (snd (validateNoExposedPII_st P text mappings h)) = h
       \<and> cell_at (snd (validateNoExposedPII_st P text mappings h)) mappings = Some (ObjCell m)"
proof -
  have v: "mappings < length h" using assms by (rule cell_at_valid)
  have keep: "cell_at (h @ cs) mappings = Some (ObjCell m)" for cs
    using assms v by (simp add: cell_at_append)
  show ?thesis
    by (simp add: maskPII_st_eq [OF assms] unmaskPII_st_eq [OF assms]
        validateNoExposedPII_st_eq [OF assms] keep arr_at_def cell_at_new)
qed

text \<open>The store after masking holds the table of the record and, after it, the array
  of keys that was sorted in place.\<close>

theorem table_never_mutated_witness:
  "snd (maskPII_st latin1 (lit ''John Smith said John is happy'') 0 [ObjCell john_smith_table])
     = [ObjCell john_smith_table,
        ArrCell [lit ''John Smith'', lit ''john smith'', lit ''JOHN SMITH'', lit ''John'',
                 lit ''john'', lit ''JOHN'']]
   \<and> fst (maskPII_st latin1 (lit ''John Smith said John is happy'') 0 [ObjCell john_smith_table])
     = Some (lit ''[STUDENT_NAME] said [STUDENT_FIRST] is happy'')"
proof -
  have a: "cell_at [ObjCell john_smith_table] 0 = Some (ObjCell john_smith_table)"
    by (simp add: cell_at_def)
  have b: "snd (maskPII_st latin1 (lit ''John Smith said John is happy'') 0 [ObjCell john_smith_table])
     = [ObjCell john_smith_table,
        ArrCell [lit ''John Smith'', lit ''john smith'', lit ''JOHN SMITH'', lit ''John'',
                 lit ''john'', lit ''JOHN'']]"
    by code_simp
  have c: "maskPII latin1 (lit ''John Smith said John is happy'') john_smith_table
      = Some (lit ''[STUDENT_NAME] said [STUDENT_FIRST] is happy'')"
    by code_simp
  show ?thesis
    using table_never_mutated [OF a, of latin1 "lit ''John Smith said John is happy''"] b c by simp
qed

section \<open>The reverse table\<close>




lemma unmask_loop_foldl: "unmask_loop P rs t = Some (restored_entries P rs t)"
  by (induction rs arbitrary: t) (auto simp: regexp_replace_escaped restored_entries_def)

lemma unmaskPII_total: "unmaskPII P text m = Some (restored_entries P (reverseMappings m) text)"
  by (simp add: unmaskPII_def unmask_loop_foldl)


section \<open>The round trip\<close>

text \<open>Assigning to a key outside a set of keys leaves the entries of that set, and their
  order, as they are.\<close>

lemma filter_obj_update:
  "k \<notin> K \<Longrightarrow> filter (\<lambda>e. fst e \<in> K) (obj_update k v m) = filter (\<lambda>e. fst e \<in> K) m"
proof (induction m)
  case Nil show ?case by (simp add: obj_update_def)
next
  case (Cons e m)
  obtain a b where e: "e = (a, b)" by (cases e)
  have step: "obj_update k v ((a, b) # m) = (if a = k then (a, v) else (a, b)) # obj_update k v m"
    by (simp add: obj_update_def)
  show ?case using Cons unfolding e step by (cases "a = k") auto
qed

lemma filter_obj_insert:
  "k \<notin> K \<Longrightarrow> filter (\<lambda>e. fst e \<in> K) (obj_insert k v m) = filter (\<lambda>e. fst e \<in> K) m"
proof (induction m)
  case Nil then show ?case by simp
next
  case (Cons e m)
  obtain a b where e: "e = (a, b)" by (cases e)
  show ?case using Cons unfolding e by (cases "goes_before k a") auto
qed

lemma filter_obj_set:
  "k \<notin> K \<Longrightarrow> filter (\<lambda>e. fst e \<in> K) (obj_set k v m) = filter (\<lambda>e. fst e \<in> K) m"
  by (simp add: obj_set_def filter_obj_update filter_obj_insert)

lemma obj_insert_plain_key: "\<not> is_array_index k \<Longrightarrow> obj_insert k v m = m @ [(k, v)]"
  by (induction m) (auto simp: goes_before_def)

lemma dob_block_keyset:
  "set (obj_keys (dob_block date si m)) = set (obj_keys (dob_block date si [])) \<union> set (obj_keys m)"
  by (auto simp: dob_block_def Let_def block_simps split: option.splits)

lemma dob_block_get_keys:
  "obj_get (dob_block date si m) k =
     (if k \<in> set (obj_keys (dob_block date si [])) then Some DOB else obj_get m k)"
  by (auto simp: dob_block_def Let_def block_simps split: option.splits)

lemma later_blocks_keyset:
  "set (obj_keys (address_block si (parent_block P si (grade_block si (school_block P si
      (id_block si m))))))
     = set (obj_keys (later_fields P si)) \<union> set (obj_keys m)"
proof -
  let ?m1 = "id_block si m"
  let ?m2 = "school_block P si ?m1"
  let ?m3 = "grade_block si ?m2"
  let ?m4 = "parent_block P si ?m3"
  have "set (obj_keys (address_block si ?m4))
      = set (obj_keys (address_block si [])) \<union> set (obj_keys ?m4)"
    by (rule address_block_keyset)
  also have "set (obj_keys ?m4) = set (obj_keys (parent_block P si [])) \<union> set (obj_keys ?m3)"
    by (rule parent_block_keyset)
  also have "set (obj_keys ?m3) = set (obj_keys (grade_block si [])) \<union> set (obj_keys ?m2)"
    by (rule grade_block_keyset)
  also have "set (obj_keys ?m2) = set (obj_keys (school_block P si [])) \<union> set (obj_keys ?m1)"
    by (rule school_block_keyset)
  also have "set (obj_keys ?m1) = set (obj_keys (id_block si [])) \<union> set (obj_keys m)"
    by (rule id_block_keyset)
  finally show ?thesis unfolding later_fields_keyset by blast
qed

lemma built_keyset:
  "set (obj_keys (createPIIMappings P date si))
     = set (other_keys P date si) \<union> set (obj_keys (name_block P si []))"
proof -
  have "set (obj_keys (createPIIMappings P date si))
      = set (obj_keys (later_fields P si)) \<union> set (obj_keys (dob_block date si (name_block P si [])))"
    unfolding createPIIMappings_def by (rule later_blocks_keyset)
  also have "set (obj_keys (dob_block date si (name_block P si [])))
      = set (obj_keys (dob_block date si [])) \<union> set (obj_keys (name_block P si []))"
    by (rule dob_block_keyset)
  finally show ?thesis by (auto simp: other_keys_def)
qed

lemma built_get_name:
  "k \<notin> set (other_keys P date si) \<Longrightarrow>
   obj_get (createPIIMappings P date si) k = obj_get (name_block P si []) k"
  by (simp add: built_get dob_block_get_keys other_keys_def)

lemma built_get_other:
  "k \<in> set (other_keys P date si) \<Longrightarrow>
   \<exists>p \<in> {DOB, STUDENT_ID, SCHOOL, GRADE, PARENT_NAME, ADDRESS}.
     obj_get (createPIIMappings P date si) k = Some p"
proof (cases "k \<in> set (obj_keys (later_fields P si))")
  case True
  then have "obj_get (createPIIMappings P date si) k = obj_get (later_fields P si) k"
    by (simp add: built_get)
  moreover have "obj_get (later_fields P si) k \<in> Some ` {STUDENT_ID, SCHOOL, GRADE, PARENT_NAME, ADDRESS}"
    using True unfolding later_fields_keyset
    by (auto simp add: later_fields_def address_block_get parent_block_get grade_block_get
      school_block_get id_block_get obj_get_empty)
  ultimately show ?thesis by auto
next
  case False
  assume "k \<in> set (other_keys P date si)"
  with False have "k \<in> set (obj_keys (dob_block date si []))" by (simp add: other_keys_def)
  then show ?thesis using False by (simp add: built_get dob_block_get_keys)
qed

lemma name_block_tokens:
  "obj_get (name_block P si []) k = Some p \<Longrightarrow> p = STUDENT_NAME \<or> p = STUDENT_FIRST"
  by (auto simp: name_block_def Let_def block_simps split: if_splits)

lemma built_distinct: "distinct (obj_keys (createPIIMappings P date si))"
proof -
  note d = distinct_obj_set
  have e: "distinct (obj_keys ([] :: PIIMappings))" by (simp add: obj_keys_def)
  have 1: "distinct (obj_keys (name_block P si m))" if "distinct (obj_keys m)" for m
    using that by (simp add: name_block_def Let_def d)
  have 2: "distinct (obj_keys (dob_block date si m))" if "distinct (obj_keys m)" for m
    using that by (simp add: dob_block_def Let_def d split: option.splits)
  have 3: "distinct (obj_keys (id_block si m))" if "distinct (obj_keys m)" for m
    using that by (simp add: id_block_def d)
  have 4: "distinct (obj_keys (school_block P si m))" if "distinct (obj_keys m)" for m
    using that by (simp add: school_block_def d)
  have 5: "distinct (obj_keys (grade_block si m))" if "distinct (obj_keys m)" for m
    using that by (simp add: grade_block_def d)
  have 6: "distinct (obj_keys (parent_block P si m))" if "distinct (obj_keys m)" for m
    using that by (simp add: parent_block_def d)
  have 7: "distinct (obj_keys (address_block si m))" if "distinct (obj_keys m)" for m
    using that by (simp add: address_block_def d split: option.splits)
  show ?thesis unfolding createPIIMappings_def by (intro 7 6 5 4 3 2 1 e)
qed

lemma built_entry:
  "(k, p) \<in> set (createPIIMappings P date si) \<Longrightarrow> obj_get (createPIIMappings P date si) k = Some p"
  using built_distinct [of P date si] by (simp add: obj_get_def obj_keys_def)

text \<open>The blocks after the name leave the entries of the name, and their order, as they
  are when they write none of its keys.\<close>

lemma obj_set_proto: "obj_set proto_key v m = m"
  by (simp add: obj_set_def)

lemma built_filter_name:
  assumes "set (other_keys P date si) \<inter> K = {}"
  shows "filter (\<lambda>e. fst e \<in> K) (createPIIMappings P date si)
       = filter (\<lambda>e. fst e \<in> K) (name_block P si [])"
proof -
  note f = filter_obj_set [where K = K] obj_set_proto
  have dk: "set (obj_keys (dob_block date si [])) \<inter> K = {}"
    and lk: "set (obj_keys (later_fields P si)) \<inter> K = {}"
    using assms by (auto simp: other_keys_def)
  from lk have k5: "set (obj_keys (address_block si [])) \<inter> K = {}"
    and k4: "set (obj_keys (parent_block P si [])) \<inter> K = {}"
    and k3: "set (obj_keys (grade_block si [])) \<inter> K = {}"
    and k2: "set (obj_keys (school_block P si [])) \<inter> K = {}"
    and k1: "set (obj_keys (id_block si [])) \<inter> K = {}"
    unfolding later_fields_keyset by auto
  have 1: "filter (\<lambda>e. fst e \<in> K) (dob_block date si m) = filter (\<lambda>e. fst e \<in> K) m" for m
    using dk by (auto simp: dob_block_def Let_def block_simps f split: option.splits if_splits)
  have 2: "filter (\<lambda>e. fst e \<in> K) (id_block si m) = filter (\<lambda>e. fst e \<in> K) m" for m
    using k1 by (auto simp: id_block_def block_simps f split: if_splits)
  have 3: "filter (\<lambda>e. fst e \<in> K) (school_block P si m) = filter (\<lambda>e. fst e \<in> K) m" for m
    using k2 by (auto simp: school_block_def block_simps f split: if_splits)
  have 4: "filter (\<lambda>e. fst e \<in> K) (grade_block si m) = filter (\<lambda>e. fst e \<in> K) m" for m
    using k3 by (auto simp: grade_block_def block_simps f split: if_splits)
  have 5: "filter (\<lambda>e. fst e \<in> K) (parent_block P si m) = filter (\<lambda>e. fst e \<in> K) m" for m
    using k4 by (auto simp: parent_block_def block_simps f split: if_splits)
  have 6: "filter (\<lambda>e. fst e \<in> K) (address_block si m) = filter (\<lambda>e. fst e \<in> K) m" for m
    using k5 by (auto simp: address_block_def block_simps f split: option.splits if_splits)
  show ?thesis unfolding createPIIMappings_def by (simp only: 1 2 3 4 5 6)
qed

lemma name_block_only_name: "name_block P si [] = name_block P (only_name (name si)) []"
  by (simp add: name_block_def only_name_def)

lemma replaced_keys_erase:
  assumes noop: "\<forall>k \<in> set ks. k \<notin> K \<longrightarrow> (\<forall>t \<in> S. replace_all P True k (placeholder_of m k) t = t)"
    and same: "\<forall>k \<in> K. placeholder_of m k = placeholder_of n k"
  shows "set (mask_trace P n (filter (\<lambda>k. k \<in> K) ks) t) \<subseteq> S \<Longrightarrow>
         replaced_keys P m ks t = replaced_keys P n (filter (\<lambda>k. k \<in> K) ks) t"
  using noop
proof (induction ks arbitrary: t)
  case Nil show ?case by (simp add: replaced_keys_Nil)
next
  case (Cons k ks)
  show ?case
  proof (cases "k \<in> K")
    case True
    then show ?thesis using same Cons by (simp add: replaced_keys_Cons)
  next
    case False
    have "t \<in> S" using Cons.prems(1) by (cases "filter (\<lambda>k. k \<in> K) ks") (auto simp: False)
    then have "replace_all P True k (placeholder_of m k) t = t" using False Cons.prems by simp
    then show ?thesis using False Cons by (simp add: replaced_keys_Cons)
  qed
qed

lemma restored_entries_Nil: "restored_entries P [] t = t"
  by (simp add: restored_entries_def)

lemma restored_entries_Cons:
  "restored_entries P ((p, v) # rs) t = restored_entries P rs (replace_all P False p v t)"
  by (simp add: restored_entries_def)

lemma restored_entries_erase:
  assumes noop: "\<forall>e \<in> set rs. fst e \<notin> TS \<longrightarrow> (\<forall>t \<in> S. replace_all P False (fst e) (snd e) t = t)"
  shows "set (unmask_trace P (filter (\<lambda>e. fst e \<in> TS) rs) t) \<subseteq> S \<Longrightarrow>
         restored_entries P rs t = restored_entries P (filter (\<lambda>e. fst e \<in> TS) rs) t"
  using noop
proof (induction rs arbitrary: t)
  case Nil show ?case by simp
next
  case (Cons e rs)
  obtain p v where e: "e = (p, v)" by (cases e)
  show ?case
  proof (cases "p \<in> TS")
    case True
    then show ?thesis using Cons e by (simp add: restored_entries_Cons)
  next
    case False
    have "t \<in> S" using Cons.prems(1) e False
      by (cases "filter (\<lambda>e. fst e \<in> TS) rs") (auto split: prod.splits)
    then have "replace_all P False p v t = t" using False Cons.prems e by auto
    then show ?thesis using False Cons e by (simp add: restored_entries_Cons)
  qed
qed

lemma map_of_filter_keys:
  "p \<in> TS \<Longrightarrow> map_of (filter (\<lambda>e. fst e \<in> TS) rm) p = map_of rm p"
  by (induction rm) auto

lemma obj_update_Cons:
  "obj_update p v ((a, b) # xs) = (if a = p then (a, v) else (a, b)) # obj_update p v xs"
  by (simp add: obj_update_def)

lemma obj_update_Nil: "obj_update p v [] = []"
  by (simp add: obj_update_def)

lemma filter_obj_update_in:
  "filter (\<lambda>e. fst e \<in> TS) (obj_update p v rm) = obj_update p v (filter (\<lambda>e. fst e \<in> TS) rm)"
proof (induction rm)
  case Nil show ?case by (simp add: obj_update_Nil)
next
  case (Cons e rm)
  obtain a b where e: "e = (a, b)" by (cases e)
  show ?case using Cons unfolding e by (auto simp: obj_update_Cons)
qed

lemma filter_obj_set_in:
  assumes "p \<in> TS" and "\<not> is_array_index p"
  shows "filter (\<lambda>e. fst e \<in> TS) (obj_set p v rm) = obj_set p v (filter (\<lambda>e. fst e \<in> TS) rm)"
proof -
  have "p \<in> set (map fst rm) \<longleftrightarrow> p \<in> set (map fst (filter (\<lambda>e. fst e \<in> TS) rm))"
    using assms(1) by (induction rm) auto
  then show ?thesis
    using assms by (auto simp: obj_set_def filter_obj_update_in obj_insert_plain_key)
qed

lemma reverse_loop_filter:
  assumes "\<forall>e \<in> set es. \<not> is_array_index (snd e)"
  shows "filter (\<lambda>e. fst e \<in> TS) (reverse_loop es rm)
       = reverse_loop (filter (\<lambda>e. snd e \<in> TS) es) (filter (\<lambda>e. fst e \<in> TS) rm)"
  using assms
proof (induction es arbitrary: rm)
  case Nil show ?case by simp
next
  case (Cons e es)
  obtain k p where e: "e = (k, p)" by (cases e)
  from Cons.prems e have np: "\<not> is_array_index p" and rest: "\<forall>e \<in> set es. \<not> is_array_index (snd e)"
    by auto
  show ?case
  proof (cases "p \<in> TS")
    case True
    have g: "falsy_entry (filter (\<lambda>e. fst e \<in> TS) rm) p = falsy_entry rm p"
      using True by (simp add: falsy_entry_def obj_get_def map_of_filter_keys)
    show ?thesis unfolding e using True Cons.IH [OF rest] g
      by (simp add: filter_obj_set_in [OF True np])
  next
    case False
    show ?thesis unfolding e using False Cons.IH [OF rest]
      by (simp add: filter_obj_set [OF False])
  qed
qed

lemma reverse_loop_keys:
  "set (obj_keys (reverse_loop es rm)) \<subseteq> snd ` set es \<union> set (obj_keys rm)"
proof (induction es arbitrary: rm)
  case Nil show ?case by simp
next
  case (Cons e es)
  obtain k p where e: "e = (k, p)" by (cases e)
  show ?case unfolding e
    using Cons [of "obj_set p k rm"] Cons [of rm] by (auto simp: set_obj_keys_obj_set split: if_splits)
qed

lemma data_tokens_only_obj_set:
  "p \<in> set DATA_TOKENS \<Longrightarrow> data_tokens_only m \<Longrightarrow> data_tokens_only (obj_set k p m)"
  unfolding data_tokens_only_def using values_obj_set [of k p m] by blast

lemma built_values: "data_tokens_only (createPIIMappings P date si)"
proof -
  note v = data_tokens_only_obj_set
  have t: "STUDENT_NAME \<in> set DATA_TOKENS" "STUDENT_FIRST \<in> set DATA_TOKENS"
    "DOB \<in> set DATA_TOKENS" "STUDENT_ID \<in> set DATA_TOKENS" "SCHOOL \<in> set DATA_TOKENS"
    "GRADE \<in> set DATA_TOKENS" "PARENT_NAME \<in> set DATA_TOKENS" "ADDRESS \<in> set DATA_TOKENS"
    by (simp_all add: DATA_TOKENS_def)
  have e: "data_tokens_only []" by (simp add: data_tokens_only_def)
  have 1: "data_tokens_only (name_block P si m)" if "data_tokens_only m" for m
    using that by (simp add: name_block_def Let_def v t)
  have 2: "data_tokens_only (dob_block date si m)" if "data_tokens_only m" for m
    using that by (simp add: dob_block_def Let_def v t split: option.splits)
  have 3: "data_tokens_only (id_block si m)" if "data_tokens_only m" for m
    using that by (simp add: id_block_def v t)
  have 4: "data_tokens_only (school_block P si m)" if "data_tokens_only m" for m
    using that by (simp add: school_block_def v t)
  have 5: "data_tokens_only (grade_block si m)" if "data_tokens_only m" for m
    using that by (simp add: grade_block_def v t)
  have 6: "data_tokens_only (parent_block P si m)" if "data_tokens_only m" for m
    using that by (simp add: parent_block_def v t)
  have 7: "data_tokens_only (address_block si m)" if "data_tokens_only m" for m
    using that by (simp add: address_block_def v t split: option.splits)
  show ?thesis unfolding createPIIMappings_def by (intro 7 6 5 4 3 2 1 e)
qed

lemma sortedKeys_filter:
  "filter (\<lambda>k. k \<in> K) (sortedKeys m) = sortedKeys (filter (\<lambda>e. fst e \<in> K) m)"
  by (simp add: sortedKeys_def obj_keys_def filter_sort filter_map comp_def)

text \<open>With ASCII keys and placeholders, masking an ASCII text depends on the platform
  through the ASCII letters only; unmasking does not depend on it.\<close>

lemma mask_trace_platform:
  assumes f: "ascii_faithful P" and g: "ascii_faithful Q"
  shows "ascii t \<Longrightarrow> \<forall>k \<in> set ks. ascii k \<and> ascii (placeholder_of m k) \<Longrightarrow>
         mask_trace P m ks t = mask_trace Q m ks t"
proof (induction ks arbitrary: t)
  case Nil show ?case by simp
next
  case (Cons k ks)
  from Cons.prems have k: "ascii k" and p: "ascii (placeholder_of m k)" by simp_all
  have same: "replace_all P True k (placeholder_of m k) t = replace_all Q True k (placeholder_of m k) t"
    unfolding replace_all_def using f g k Cons.prems(1) by (rule replace_from_platform)
  have "ascii (replace_all Q True k (placeholder_of m k) t)"
    unfolding replace_all_def using p Cons.prems(1) by (intro ascii_replace_from) (simp_all add: ascii_Nil)
  then show ?case using Cons same by simp
qed

lemma mask_trace_nonempty: "mask_trace P m ks t \<noteq> []"
  by (cases ks) simp_all

lemma replaced_keys_last: "replaced_keys P m ks t = last (mask_trace P m ks t)"
  by (induction ks arbitrary: t)
     (simp_all add: replaced_keys_Nil replaced_keys_Cons mask_trace_nonempty)

lemma replaced_keys_platform:
  assumes "ascii_faithful P" and "ascii_faithful Q"
    and "ascii t" and "\<forall>k \<in> set ks. ascii k \<and> ascii (placeholder_of m k)"
  shows "replaced_keys P m ks t = replaced_keys Q m ks t"
  unfolding replaced_keys_last by (simp only: mask_trace_platform [OF assms])

lemma unmask_trace_platform: "unmask_trace P rs t = unmask_trace Q rs t"
proof (induction rs arbitrary: t)
  case Nil show ?case by simp
next
  case (Cons e rs)
  obtain p v where e: "e = (p, v)" by (cases e)
  have "replace_all P False p v t = replace_all Q False p v t"
    unfolding replace_all_def by (rule replace_from_exact_platform)
  then show ?case unfolding e using Cons by simp
qed

lemma unmask_trace_nonempty: "unmask_trace P rs t \<noteq> []"
  by (cases rs) auto

lemma restored_entries_last: "restored_entries P rs t = last (unmask_trace P rs t)"
proof (induction rs arbitrary: t)
  case Nil show ?case by (simp add: restored_entries_Nil)
next
  case (Cons e rs)
  obtain p v where e: "e = (p, v)" by (cases e)
  show ?case unfolding e using Cons by (simp add: restored_entries_Cons unmask_trace_nonempty)
qed

lemma restored_entries_platform: "restored_entries P rs t = restored_entries Q rs t"
  unfolding restored_entries_last by (simp only: unmask_trace_platform [of P rs t Q])

text \<open>
  Claim C1, as the code has it. Take a record whose full name is \<open>John Smith\<close> and
  whose other fields write no key that occurs, up to case, in the text
  \<open>John Smith said John is happy\<close>, in the text with the full name masked, or in the
  masked text. Masking the text with the table built from the record gives
  \<open>[STUDENT_NAME] said [STUDENT_FIRST] is happy\<close>, in which neither part of the name
  occurs up to case; the reverse table gives \<open>John Smith\<close> for the full-name token
  and \<open>John\<close> for the first-name token, and unmasking the masked text gives the
  original text back.
\<close>

theorem john_smith_round_trip:
  assumes f: "ascii_faithful P" and nm: "name si = lit ''John Smith''"
    and others: "\<forall>k \<in> set (other_keys P date si).
        \<not> occurs_ci P k said_text \<and> \<not> occurs_ci P k said_name_masked
        \<and> \<not> occurs_ci P k said_masked"
  shows "maskPII P said_text (createPIIMappings P date si) = Some said_masked
       \<and> \<not> occurs_up_to_case (lit ''John'') said_masked
       \<and> \<not> occurs_up_to_case (lit ''Smith'') said_masked
       \<and> obj_get (reverseMappings (createPIIMappings P date si)) STUDENT_NAME
           = Some (lit ''John Smith'')
       \<and> obj_get (reverseMappings (createPIIMappings P date si)) STUDENT_FIRST
           = Some (lit ''John'')
       \<and> unmaskPII P said_masked (createPIIMappings P date si) = Some said_text"
proof -
  let ?m = "createPIIMappings P date si"
  let ?n = "john_smith_table"
  let ?K = "set (obj_keys ?n)"
  let ?S = "set [said_text, said_name_masked, said_masked]"
  let ?TS = "{STUDENT_NAME, STUDENT_FIRST}"
  let ?U = "set [said_masked, said_name_restored, said_text]"
  note g = latin1_faithful
  have an: "ascii (name si)" unfolding nm by code_simp
  have at: "ascii said_text" by code_simp
  have n: "name_block P si [] = ?n"
  proof -
    have "name_block P si [] = name_block latin1 si []"
      using f g an by (rule name_block_platform)
    also have "\<dots> = name_block latin1 (only_name (lit ''John Smith'')) []"
      unfolding name_block_only_name [of latin1 si] nm ..
    also have "\<dots> = ?n" by code_simp
    finally show ?thesis .
  qed
  have ak: "\<forall>k \<in> set (sortedKeys ?n). ascii k \<and> ascii (placeholder_of ?n k)" by code_simp
  have ks: "set (sortedKeys ?n) = ?K" by (rule sortedKeys_set)
  have "\<forall>k \<in> ?K. occurs_up_to_case k said_text" by code_simp
  then have seen: "\<forall>k \<in> ?K. occurs_ci P k said_text"
    using ak ks occurs_ci_ascii [OF f _ at] by blast
  have apart: "set (other_keys P date si) \<inter> ?K = {}" using seen others by blast
  have keys: "set (obj_keys ?m) = set (other_keys P date si) \<union> ?K"
    using built_keyset [of P date si] n by simp
  have restr: "filter (\<lambda>e. fst e \<in> ?K) ?m = ?n"
    using built_filter_name [OF apart] n by (simp add: obj_keys_def)
  have same: "\<forall>k \<in> ?K. placeholder_of ?m k = placeholder_of ?n k"
  proof
    fix k assume "k \<in> ?K"
    then have "k \<notin> set (other_keys P date si)" using apart by blast
    then have "obj_get ?m k = obj_get ?n k" using built_get_name [of k P date si] n by simp
    then show "placeholder_of ?m k = placeholder_of ?n k" by (simp add: placeholder_of_def)
  qed
  have "set (mask_trace latin1 ?n (sortedKeys ?n) said_text) \<subseteq> ?S" by code_simp
  then have trace: "set (mask_trace P ?n (sortedKeys ?n) said_text) \<subseteq> ?S"
    by (simp only: mask_trace_platform [OF f g at ak])
  have noop: "\<forall>k \<in> set (sortedKeys ?m). k \<notin> ?K \<longrightarrow>
      (\<forall>t \<in> ?S. replace_all P True k (placeholder_of ?m k) t = t)"
  proof (intro ballI impI)
    fix k t assume "k \<in> set (sortedKeys ?m)" and "k \<notin> ?K" and t: "t \<in> ?S"
    then have "k \<in> set (other_keys P date si)"
      using keys sortedKeys_set [of ?m] by auto
    then have "\<not> occurs_ci P k t" using others t by auto
    then show "replace_all P True k (placeholder_of ?m k) t = t" by (rule replace_all_absent_ci)
  qed
  have "replaced_keys P ?m (sortedKeys ?m) said_text
      = replaced_keys P ?n (filter (\<lambda>k. k \<in> ?K) (sortedKeys ?m)) said_text"
    by (rule replaced_keys_erase [OF noop same]) (simp only: sortedKeys_filter restr trace)
  also have "\<dots> = replaced_keys P ?n (sortedKeys ?n) said_text"
    by (simp only: sortedKeys_filter restr)
  also have "\<dots> = replaced_keys latin1 ?n (sortedKeys ?n) said_text"
    using f g at ak by (rule replaced_keys_platform)
  also have "\<dots> = said_masked" by code_simp
  finally have masked: "maskPII P said_text ?m = Some said_masked" by (simp add: maskPII_total)
  have vals: "\<forall>e \<in> set ?m. snd e \<in> set DATA_TOKENS"
    using built_values [of P date si] by (auto simp: data_tokens_only_def)
  have plain: "\<forall>p \<in> set DATA_TOKENS. \<not> is_array_index p" by code_simp
  have tokens: "snd e \<in> ?TS \<longleftrightarrow> fst e \<in> ?K" if e: "e \<in> set ?m" for e
  proof -
    obtain k p where kp: "e = (k, p)" by (cases e)
    have gk: "obj_get ?m k = Some p" using e kp by (simp add: built_entry)
    show ?thesis
    proof (cases "k \<in> ?K")
      case True
      then have "k \<notin> set (other_keys P date si)" using apart by blast
      then have "obj_get (name_block P si []) k = Some p"
        using gk built_get_name [of k P date si] by simp
      then show ?thesis using True kp name_block_tokens by auto
    next
      case False
      then have "k \<in> set (other_keys P date si)"
        using keys e kp by (force simp: obj_keys_def)
      then have "p \<in> {DOB, STUDENT_ID, SCHOOL, GRADE, PARENT_NAME, ADDRESS}"
        using built_get_other [of k P date si] gk by auto
      then show ?thesis using False kp by (auto simp: placeholder_defs lit_def)
    qed
  qed
  have "filter (\<lambda>e. fst e \<in> ?TS) (reverseMappings ?m)
      = reverse_loop (filter (\<lambda>e. snd e \<in> ?TS) ?m) (filter (\<lambda>e. fst e \<in> ?TS) [])"
    unfolding reverseMappings_def using vals plain by (intro reverse_loop_filter) blast
  also have "filter (\<lambda>e. snd e \<in> ?TS) ?m = filter (\<lambda>e. fst e \<in> ?K) ?m"
    using tokens by (intro filter_cong) auto
  finally have rev: "filter (\<lambda>e. fst e \<in> ?TS) (reverseMappings ?m) = reverseMappings ?n"
    by (simp add: restr reverseMappings_def)
  have absent: "\<forall>p \<in> set DATA_TOKENS. p \<notin> ?TS \<longrightarrow> (\<forall>t \<in> ?U. \<not> js_includes t p)"
    by code_simp
  have unoop: "\<forall>e \<in> set (reverseMappings ?m). fst e \<notin> ?TS \<longrightarrow>
      (\<forall>t \<in> ?U. replace_all P False (fst e) (snd e) t = t)"
  proof (intro ballI impI)
    fix e t assume e: "e \<in> set (reverseMappings ?m)" and nt: "fst e \<notin> ?TS" and t: "t \<in> ?U"
    have "fst e \<in> set (obj_keys (reverseMappings ?m))" using e by (simp add: obj_keys_def)
    then have "fst e \<in> snd ` set ?m"
      using reverse_loop_keys [of ?m "[]"] by (auto simp: reverseMappings_def obj_keys_def)
    then have "fst e \<in> set DATA_TOKENS" using vals by auto
    then have "\<not> js_includes t (fst e)" using absent nt t by blast
    then show "replace_all P False (fst e) (snd e) t = t" by (rule replace_all_absent_exact)
  qed
  have "set (unmask_trace latin1 (reverseMappings ?n) said_masked) \<subseteq> ?U" by code_simp
  then have utrace: "set (unmask_trace P (reverseMappings ?n) said_masked) \<subseteq> ?U"
    by (simp only: unmask_trace_platform [of P _ _ latin1])
  have "restored_entries P (reverseMappings ?m) said_masked
      = restored_entries P (filter (\<lambda>e. fst e \<in> ?TS) (reverseMappings ?m)) said_masked"
    by (rule restored_entries_erase [OF unoop]) (simp only: rev utrace)
  also have "\<dots> = restored_entries latin1 (reverseMappings ?n) said_masked"
    by (simp only: rev restored_entries_platform [of P _ _ latin1])
  also have "\<dots> = said_text" by code_simp
  finally have unmasked: "unmaskPII P said_masked ?m = Some said_text"
    by (simp add: unmaskPII_total)
  have look: "obj_get (reverseMappings ?m) p = obj_get (reverseMappings ?n) p" if "p \<in> ?TS" for p
    using map_of_filter_keys [OF that, of "reverseMappings ?m"] rev by (simp add: obj_get_def)
  have r1: "obj_get (reverseMappings ?n) STUDENT_NAME = Some (lit ''John Smith'')" by code_simp
  have r2: "obj_get (reverseMappings ?n) STUDENT_FIRST = Some (lit ''John'')" by code_simp
  have o1: "\<not> occurs_up_to_case (lit ''John'') said_masked" by code_simp
  have o2: "\<not> occurs_up_to_case (lit ''Smith'') said_masked" by code_simp
  show ?thesis using masked unmasked look [of STUDENT_NAME] look [of STUDENT_FIRST] r1 r2 o1 o2
    by simp
qed

text \<open>A record with a date of birth, an identifier and a grade.\<close>

theorem john_smith_round_trip_witness:
  "maskPII latin1 said_text (createPIIMappings latin1 april_second born_april_second)
     = Some said_masked
   \<and> unmaskPII latin1 said_masked (createPIIMappings latin1 april_second born_april_second)
     = Some said_text
   \<and> other_keys latin1 april_second born_april_second
     = [lit ''2015-04-02'', lit ''4/2/2015'', lit ''5'', lit ''S-1042'']"
proof -
  have a: "name born_april_second = lit ''John Smith''" by code_simp
  have b: "\<forall>k \<in> set (other_keys latin1 april_second born_april_second).
        \<not> occurs_ci latin1 k said_text \<and> \<not> occurs_ci latin1 k said_name_masked
        \<and> \<not> occurs_ci latin1 k said_masked"
    by code_simp
  have c: "other_keys latin1 april_second born_april_second
      = [lit ''2015-04-02'', lit ''4/2/2015'', lit ''5'', lit ''S-1042'']"
    by code_simp
  show ?thesis using john_smith_round_trip [OF latin1_faithful a b] c by simp
qed

text \<open>
  Claim C1 as stated, for every record with that full name, fails where another field
  has the text of the name: the guardian's name is written after the subject's and takes
  the key over, so the masked text has the guardian token in place of the full-name
  token.
\<close>

theorem guardian_with_the_same_name:
  "name same_name_parent = lit ''John Smith''
   \<and> maskPII latin1 (lit ''John Smith said John is happy'')
       (createPIIMappings latin1 no_date same_name_parent)
     = Some (lit ''[PARENT_NAME] said [STUDENT_FIRST] is happy'')
   \<and> obj_get (createPIIMappings latin1 no_date same_name_parent) (lit ''John Smith'')
     = Some PARENT_NAME"
  by code_simp

end
